theory Spec2Isabelle
  imports Main "HOL-Library.AList" "HOL-Library.Multiset"
begin

section \<open>Map colouring by backtracking: the model of \<^verbatim>\<open>back/server.py\<close>\<close>

subsection \<open>Data model\<close>

text \<open>
  Python dictionaries keep their keys in insertion order, and \<^verbatim>\<open>order_nodes\<close> reads that
  order, so a dictionary is an association list with distinct keys: storing under a new key
  appends the entry, storing under an old key replaces the value where it stands
  (\<^const>\<open>AList.update\<close>), and \<^verbatim>\<open>del\<close> removes the entry (\<^const>\<open>AList.delete\<close>).
  Failing lookups are values of type \<open>error\<close>.
\<close>

datatype error = KeyError | IndexError

type_synonym 'v pydict = "(string \<times> 'v) list"

record Edge =
  src :: string
  dst :: string

record SolveRequest =
  nodes :: "string list"
  edges :: "Edge list"
  k_colors :: int
  order :: "string option"

record Step =
  action :: string
  node :: string
  color :: "int option"
  partial :: "int pydict option"

record SolveResponse =
  ok :: bool
  colors :: "int pydict"
  steps :: "Step list"
  message :: string

definition keys :: "'v pydict \<Rightarrow> string list" where
  "keys d = map fst d"

definition contains :: "'v pydict \<Rightarrow> string \<Rightarrow> bool" where
  \<comment> \<open>\<^verbatim>\<open>key in d\<close>\<close>
  "contains d key = (key \<in> set (keys d))"

definition getitem :: "'v pydict \<Rightarrow> string \<Rightarrow> error + 'v" where
  \<comment> \<open>\<^verbatim>\<open>d[key]\<close>\<close>
  "getitem d key = (case map_of d key of None \<Rightarrow> Inl KeyError | Some v \<Rightarrow> Inr v)"

definition get :: "'v pydict \<Rightarrow> string \<Rightarrow> 'v \<Rightarrow> 'v" where
  \<comment> \<open>\<^verbatim>\<open>d.get(key, default)\<close>\<close>
  "get d key dflt = (case map_of d key of None \<Rightarrow> dflt | Some v \<Rightarrow> v)"

definition setitem :: "'v pydict \<Rightarrow> string \<Rightarrow> 'v \<Rightarrow> 'v pydict" where
  \<comment> \<open>\<^verbatim>\<open>d[key] = v\<close>\<close>
  "setitem d key v = AList.update key v d"

definition delitem :: "'v pydict \<Rightarrow> string \<Rightarrow> error + 'v pydict" where
  \<comment> \<open>\<^verbatim>\<open>del d[key]\<close>\<close>
  "delitem d key = (if contains d key then Inr (AList.delete key d) else Inl KeyError)"

subsection \<open>\<^verbatim>\<open>build_adj\<close>\<close>

definition append_neighbor :: "string list pydict \<Rightarrow> string \<Rightarrow> string \<Rightarrow> string list pydict" where
  \<comment> \<open>\<^verbatim>\<open>if b not in adj[a]: adj[a].append(b)\<close>, reached only when \<^verbatim>\<open>a in adj\<close>\<close>
  "append_neighbor adj a b =
     (case map_of adj a of
        None \<Rightarrow> adj
      | Some l \<Rightarrow> if b \<notin> set l then AList.update a (l @ [b]) adj else adj)"

definition add_edge :: "string list pydict \<Rightarrow> Edge \<Rightarrow> string list pydict" where
  \<comment> \<open>the body of the loop over the edges\<close>
  "add_edge adj e =
     (if contains adj (src e) \<and> contains adj (dst e) \<and> src e \<noteq> dst e
      then append_neighbor (append_neighbor adj (src e) (dst e)) (dst e) (src e)
      else adj)"

definition init_adj :: "string list \<Rightarrow> string list pydict" where
  \<comment> \<open>\<^verbatim>\<open>{u: [] for u in nodes}\<close>\<close>
  "init_adj ns = foldl (\<lambda>d u. setitem d u []) [] ns"

definition build_adj :: "string list \<Rightarrow> Edge list \<Rightarrow> string list pydict" where
  "build_adj ns es = foldl add_edge (init_adj ns) es"

subsection \<open>\<^verbatim>\<open>order_nodes\<close>\<close>

fun traverse :: "('a \<Rightarrow> error + 'b) \<Rightarrow> 'a list \<Rightarrow> error + 'b list" where
  "traverse f [] = Inr []"
| "traverse f (x # xs) =
     (case f x of
        Inl e \<Rightarrow> Inl e
      | Inr y \<Rightarrow> (case traverse f xs of Inl e \<Rightarrow> Inl e | Inr ys \<Rightarrow> Inr (y # ys)))"

definition sorted_reverse :: "('a \<Rightarrow> error + int) \<Rightarrow> 'a list \<Rightarrow> error + 'a list" where
  \<comment> \<open>\<^verbatim>\<open>sorted(xs, key=key, reverse=True)\<close>: the keys are computed first, one per element;
      the list is reversed, sorted by a stable ascending sort, and reversed again\<close>
  "sorted_reverse key xs =
     (case traverse key xs of
        Inl e \<Rightarrow> Inl e
      | Inr ks \<Rightarrow> Inr (map snd (rev (sort_key fst (rev (zip ks xs))))))"

definition degree_key :: "string list pydict \<Rightarrow> string \<Rightarrow> error + int" where
  \<comment> \<open>\<^verbatim>\<open>lambda u: len(adj[u])\<close>\<close>
  "degree_key adj u = (case getitem adj u of Inl e \<Rightarrow> Inl e | Inr l \<Rightarrow> Inr (int (length l)))"

definition order_nodes :: "string list pydict \<Rightarrow> string \<Rightarrow> error + string list" where
  "order_nodes adj ord =
     (if ord = ''degree'' then sorted_reverse (degree_key adj) (keys adj)
      else Inr (keys adj))"

subsection \<open>\<^verbatim>\<open>compatible\<close>\<close>

fun compatible_loop :: "string list \<Rightarrow> int \<Rightarrow> int pydict \<Rightarrow> bool" where
  "compatible_loop [] c cols = True"
| "compatible_loop (v # vs) c cols =
     (if get cols v (- 1) = c then False else compatible_loop vs c cols)"

definition compatible :: "string \<Rightarrow> int \<Rightarrow> int pydict \<Rightarrow> string list pydict \<Rightarrow> error + bool" where
  "compatible u c cols adj =
     (case getitem adj u of Inl e \<Rightarrow> Inl e | Inr vs \<Rightarrow> Inr (compatible_loop vs c cols))"

subsection \<open>\<^verbatim>\<open>color_graph_backtracking\<close>\<close>

text \<open>
  The closure \<^verbatim>\<open>backtrack\<close> mutates \<^verbatim>\<open>colors\<close> and \<^verbatim>\<open>steps\<close>; the model passes both as a
  pair and returns them updated. \<open>color_loop\<close> is the loop \<^verbatim>\<open>for c in range(k)\<close> of one call,
  entered with the colours still to try. A snapshot \<^verbatim>\<open>colors.copy()\<close> is the value of the
  dictionary when the step is recorded.
\<close>

type_synonym search_state = "int pydict \<times> Step list"

definition record_step :: "string \<Rightarrow> string \<Rightarrow> int option \<Rightarrow> int pydict \<Rightarrow> Step" where
  "record_step a u c cols = \<lparr>action = a, node = u, color = c, partial = Some cols\<rparr>"

definition py_range :: "int \<Rightarrow> int list" where
  "py_range k = [0..k - 1]"

function backtrack :: "string list pydict \<Rightarrow> int \<Rightarrow> string list \<Rightarrow> nat \<Rightarrow> search_state
                         \<Rightarrow> error + (bool \<times> search_state)"
  and color_loop :: "string list pydict \<Rightarrow> int \<Rightarrow> string list \<Rightarrow> nat \<Rightarrow> string \<Rightarrow> int list
                         \<Rightarrow> search_state \<Rightarrow> error + (bool \<times> search_state)"
where
  "backtrack adj k ns i (cols, st) =
     (if i = length ns then Inr (True, cols, st @ [record_step ''done'' '''' None cols])
      else if length ns < i then Inl IndexError
      else color_loop adj k ns i (ns ! i) (py_range k) (cols, st))"
| "color_loop adj k ns i u [] (cols, st) = Inr (False, cols, st)"
| "color_loop adj k ns i u (c # cs) (cols, st) =
     (let st1 = st @ [record_step ''try'' u (Some c) cols] in
      case compatible u c cols adj of
        Inl e \<Rightarrow> Inl e
      | Inr True \<Rightarrow>
          (let cols1 = setitem cols u c;
               st2 = st1 @ [record_step ''assign'' u (Some c) cols1]
           in case backtrack adj k ns (i + 1) (cols1, st2) of
                Inl e \<Rightarrow> Inl e
              | Inr (True, s') \<Rightarrow> Inr (True, s')
              | Inr (False, cols2, st3) \<Rightarrow>
                  (case delitem cols2 u of
                     Inl e \<Rightarrow> Inl e
                   | Inr cols3 \<Rightarrow>
                       color_loop adj k ns i u cs
                         (cols3, st3 @ [record_step ''backtrack'' u (Some c) cols2])))
      | Inr False \<Rightarrow>
          color_loop adj k ns i u cs (cols, st1 @ [record_step ''conflict'' u (Some c) cols]))"
  by pat_completeness auto
termination
  by (relation "inv_image (less_than <*lex*> less_than)
        (\<lambda>x. case x of
           Inl (adj, k, ns, i, s) \<Rightarrow> (if length ns < i then 0 else 2 * (length ns - i) + 2, 0)
         | Inr (adj, k, ns, i, u, cs, s) \<Rightarrow>
             (if length ns < i then 1 else 2 * (length ns - i) + 1, length cs))")
     auto

definition color_graph_backtracking ::
  "string list pydict \<Rightarrow> int \<Rightarrow> string \<Rightarrow> error + (bool \<times> int pydict \<times> Step list)" where
  "color_graph_backtracking adj k ord =
     (case order_nodes adj ord of
        Inl e \<Rightarrow> Inl e
      | Inr ns \<Rightarrow>
          (case backtrack adj k ns 0 ([], []) of
             Inl e \<Rightarrow> Inl e
           | Inr (b, cols, st) \<Rightarrow> Inr (b, if b then cols else [], st)))"

subsection \<open>\<^verbatim>\<open>solve\<close>\<close>

definition msg_found :: string where
  \<comment> \<open>"Soluci\'on encontrada.", the accented letter as its two UTF-8 bytes\<close>
  "msg_found = ''Soluci'' @ [CHR 0xC3, CHR 0xB3] @ ''n encontrada.''"

definition solve :: "SolveRequest \<Rightarrow> error + SolveResponse" where
  "solve req =
     (if \<not> (2 \<le> k_colors req \<and> k_colors req \<le> 5)
      then Inr \<lparr>ok = False, colors = [], steps = [],
                message = ''k_colors debe estar entre 2 y 5.''\<rparr>
      else if nodes req = []
      then Inr \<lparr>ok = False, colors = [], steps = [], message = ''Debes enviar nodos.''\<rparr>
      else
        (let adj = build_adj (nodes req) (edges req);
             ord = (case order req of
                      None \<Rightarrow> ''degree''
                    | Some s \<Rightarrow> if s = [] then ''degree'' else s)
         in case color_graph_backtracking adj (k_colors req) ord of
              Inl e \<Rightarrow> Inl e
            | Inr (b, cols, st) \<Rightarrow>
                Inr \<lparr>ok = b, colors = cols, steps = st,
                     message = (if b then msg_found
                                else ''No existe coloreo con k colores.'')\<rparr>))"


subsection \<open>Vocabulary of the properties\<close>

definition neighbors :: "string list pydict \<Rightarrow> string \<Rightarrow> string list" where
  "neighbors adj u = get adj u []"

definition flip :: "Edge \<Rightarrow> Edge" where
  "flip e = \<lparr>src = dst e, dst = src e\<rparr>"

definition adj_ok :: "string list pydict \<Rightarrow> bool" where
  "adj_ok adj \<longleftrightarrow>
     distinct (keys adj) \<and>
     (\<forall>u. distinct (neighbors adj u) \<and> u \<notin> set (neighbors adj u) \<and>
          set (neighbors adj u) \<subseteq> set (keys adj) \<and>
          (\<forall>v \<in> set (neighbors adj u). u \<in> set (neighbors adj v)))"

definition degree :: "string list pydict \<Rightarrow> string \<Rightarrow> nat" where
  "degree adj u = length (neighbors adj u)"

definition order_default :: "string option" where
  "order_default = Some ''degree''"

definition valid_coloring :: "string list pydict \<Rightarrow> int pydict \<Rightarrow> bool" where
  "valid_coloring adj cols \<longleftrightarrow>
     (\<forall>(u, c) \<in> set cols. \<forall>v \<in> set (neighbors adj u). map_of cols v \<noteq> Some c)"

definition colors_in_range :: "int \<Rightarrow> int pydict \<Rightarrow> bool" where
  "colors_in_range k cols \<longleftrightarrow> (\<forall>(u, c) \<in> set cols. 0 \<le> c \<and> c < k)"

definition snapshot_valid :: "string list pydict \<Rightarrow> Step \<Rightarrow> bool" where
  "snapshot_valid adj s \<longleftrightarrow> (case partial s of None \<Rightarrow> True | Some p \<Rightarrow> valid_coloring adj p)"

definition k3_trace :: "Step list" where
  "k3_trace =
     [record_step ''try'' ''A'' (Some 0) [],
      record_step ''assign'' ''A'' (Some 0) [(''A'', 0)],
      record_step ''try'' ''B'' (Some 0) [(''A'', 0)],
      record_step ''conflict'' ''B'' (Some 0) [(''A'', 0)],
      record_step ''try'' ''B'' (Some 1) [(''A'', 0)],
      record_step ''assign'' ''B'' (Some 1) [(''A'', 0), (''B'', 1)],
      record_step ''try'' ''C'' (Some 0) [(''A'', 0), (''B'', 1)],
      record_step ''conflict'' ''C'' (Some 0) [(''A'', 0), (''B'', 1)],
      record_step ''try'' ''C'' (Some 1) [(''A'', 0), (''B'', 1)],
      record_step ''conflict'' ''C'' (Some 1) [(''A'', 0), (''B'', 1)],
      record_step ''backtrack'' ''B'' (Some 1) [(''A'', 0), (''B'', 1)],
      record_step ''backtrack'' ''A'' (Some 0) [(''A'', 0)],
      record_step ''try'' ''A'' (Some 1) [],
      record_step ''assign'' ''A'' (Some 1) [(''A'', 1)],
      record_step ''try'' ''B'' (Some 0) [(''A'', 1)],
      record_step ''assign'' ''B'' (Some 0) [(''A'', 1), (''B'', 0)],
      record_step ''try'' ''C'' (Some 0) [(''A'', 1), (''B'', 0)],
      record_step ''conflict'' ''C'' (Some 0) [(''A'', 1), (''B'', 0)],
      record_step ''try'' ''C'' (Some 1) [(''A'', 1), (''B'', 0)],
      record_step ''conflict'' ''C'' (Some 1) [(''A'', 1), (''B'', 0)],
      record_step ''backtrack'' ''B'' (Some 0) [(''A'', 1), (''B'', 0)],
      record_step ''try'' ''B'' (Some 1) [(''A'', 1)],
      record_step ''conflict'' ''B'' (Some 1) [(''A'', 1)],
      record_step ''backtrack'' ''A'' (Some 1) [(''A'', 1)]]"

definition k_colorable :: "string list pydict \<Rightarrow> int \<Rightarrow> bool" where
  "k_colorable adj k \<longleftrightarrow>
     (\<exists>f. (\<forall>u \<in> set (keys adj). 0 \<le> f u \<and> f u < k) \<and>
          (\<forall>u \<in> set (keys adj). \<forall>v \<in> set (neighbors adj u). f u \<noteq> (f v :: int)))"

definition conflict_nodes :: "Step list \<Rightarrow> string list" where
  "conflict_nodes st = map node (filter (\<lambda>s. action s = ''conflict'') st)"

definition own_steps :: "string \<Rightarrow> Step list \<Rightarrow> Step list" where
  "own_steps u T = filter (\<lambda>x. node x = u \<and> action x \<noteq> ''done'') T"

definition attempt_steps :: "string list pydict \<Rightarrow> string \<Rightarrow> int pydict \<Rightarrow> int \<Rightarrow> Step list" where
  "attempt_steps adj u cols c =
     (if compatible u c cols adj = Inr True
      then [record_step ''try'' u (Some c) cols,
            record_step ''assign'' u (Some c) (setitem cols u c),
            record_step ''backtrack'' u (Some c) (setitem cols u c)]
      else [record_step ''try'' u (Some c) cols,
            record_step ''conflict'' u (Some c) cols])"

definition own_trace ::
  "string list pydict \<Rightarrow> string \<Rightarrow> int pydict \<Rightarrow> int list \<Rightarrow> bool \<Rightarrow> int \<Rightarrow> Step list" where
  "own_trace adj u cols cs b w =
     (if b then concat (map (attempt_steps adj u cols) (takeWhile (\<lambda>c. c \<noteq> w) cs)) @
               [record_step ''try'' u (Some w) cols,
                record_step ''assign'' u (Some w) (setitem cols u w)]
      else concat (map (attempt_steps adj u cols) cs))"

subsection \<open>The search over an explicit store\<close>
text \<open>
  A second model of \<^verbatim>\<open>backtrack\<close>, in which dict objects live in a store (a list of
  objects, addressed by index).  The closure variable \<^verbatim>\<open>colors\<close> is the address
  \<open>colors_at\<close> of one object that \<^verbatim>\<open>colors[u] = c\<close> and \<^verbatim>\<open>del colors[u]\<close> mutate in
  place; \<^verbatim>\<open>colors.copy()\<close> allocates a new object with the current content, and a step
  holds the address of its snapshot.  Aliasing between a step and the live assignment is
  expressible here, so that the absence of aliasing is a property and not a convention.
\<close>

type_synonym addr = nat

type_synonym store = "int pydict list"

record StepRef =
  ref_action :: string
  ref_node :: string
  ref_color :: "int option"
  ref_partial :: "addr option"

type_synonym ref_state = "store \<times> StepRef list"

definition dict_copy :: "store \<Rightarrow> addr \<Rightarrow> store \<times> addr" where
  "dict_copy h a = (h @ [h ! a], length h)"

definition store_setitem :: "store \<Rightarrow> addr \<Rightarrow> string \<Rightarrow> int \<Rightarrow> store" where
  "store_setitem h a key v = h[a := setitem (h ! a) key v]"

definition store_delitem :: "store \<Rightarrow> addr \<Rightarrow> string \<Rightarrow> error + store" where
  "store_delitem h a key =
     (case delitem (h ! a) key of Inl e \<Rightarrow> Inl e | Inr d \<Rightarrow> Inr (h[a := d]))"

definition append_step ::
  "string \<Rightarrow> string \<Rightarrow> int option \<Rightarrow> addr \<Rightarrow> ref_state \<Rightarrow> ref_state" where
  "append_step a u c colors_at s =
     (let (h, p) = dict_copy (fst s) colors_at
      in (h, snd s @ [\<lparr>ref_action = a, ref_node = u, ref_color = c, ref_partial = Some p\<rparr>]))"

function backtrack_ref ::
    "string list pydict \<Rightarrow> int \<Rightarrow> string list \<Rightarrow> addr \<Rightarrow> nat \<Rightarrow> ref_state
       \<Rightarrow> error + (bool \<times> ref_state)"
  and color_loop_ref ::
    "string list pydict \<Rightarrow> int \<Rightarrow> string list \<Rightarrow> addr \<Rightarrow> nat \<Rightarrow> string \<Rightarrow> int list
       \<Rightarrow> ref_state \<Rightarrow> error + (bool \<times> ref_state)"
where
  "backtrack_ref adj k ns colors_at i s =
     (if i = length ns then Inr (True, append_step ''done'' '''' None colors_at s)
      else if length ns < i then Inl IndexError
      else color_loop_ref adj k ns colors_at i (ns ! i) (py_range k) s)"
| "color_loop_ref adj k ns colors_at i u [] s = Inr (False, s)"
| "color_loop_ref adj k ns colors_at i u (c # cs) s =
     (let s1 = append_step ''try'' u (Some c) colors_at s in
      case compatible u c (fst s1 ! colors_at) adj of
        Inl e \<Rightarrow> Inl e
      | Inr True \<Rightarrow>
          (let s2 = append_step ''assign'' u (Some c) colors_at
                      (store_setitem (fst s1) colors_at u c, snd s1)
           in case backtrack_ref adj k ns colors_at (i + 1) s2 of
                Inl e \<Rightarrow> Inl e
              | Inr (True, s') \<Rightarrow> Inr (True, s')
              | Inr (False, s3) \<Rightarrow>
                  (let s4 = append_step ''backtrack'' u (Some c) colors_at s3
                   in case store_delitem (fst s4) colors_at u of
                        Inl e \<Rightarrow> Inl e
                      | Inr h \<Rightarrow> color_loop_ref adj k ns colors_at i u cs (h, snd s4)))
      | Inr False \<Rightarrow>
          color_loop_ref adj k ns colors_at i u cs
            (append_step ''conflict'' u (Some c) colors_at s1))"
  by pat_completeness auto
termination
  by (relation "inv_image (less_than <*lex*> less_than)
        (\<lambda>x. case x of
           Inl (adj, k, ns, a, i, s) \<Rightarrow> (if length ns < i then 0 else 2 * (length ns - i) + 2, 0)
         | Inr (adj, k, ns, a, i, u, cs, s) \<Rightarrow>
             (if length ns < i then 1 else 2 * (length ns - i) + 1, length cs))")
     auto

definition deref :: "store \<Rightarrow> StepRef \<Rightarrow> Step" where
  "deref h x = \<lparr>action = ref_action x, node = ref_node x, color = ref_color x,
               partial = map_option (\<lambda>p. h ! p) (ref_partial x)\<rparr>"

definition abs_state :: "addr \<Rightarrow> ref_state \<Rightarrow> search_state" where
  "abs_state colors_at s = (fst s ! colors_at, map (deref (fst s)) (snd s))"

definition abs_result :: "addr \<Rightarrow> error + (bool \<times> ref_state) \<Rightarrow> error + (bool \<times> search_state)" where
  "abs_result colors_at r =
     (case r of Inl e \<Rightarrow> Inl e | Inr (b, s) \<Rightarrow> Inr (b, abs_state colors_at s))"

definition color_graph_backtracking_ref ::
  "string list pydict \<Rightarrow> int \<Rightarrow> string \<Rightarrow> error + (bool \<times> int pydict \<times> Step list)" where
  "color_graph_backtracking_ref adj k ord =
     (case order_nodes adj ord of
        Inl e \<Rightarrow> Inl e
      | Inr ns \<Rightarrow>
          (case backtrack_ref adj k ns 0 0 ([[]], []) of
             Inl e \<Rightarrow> Inl e
           | Inr (b, h, st) \<Rightarrow> Inr (b, if b then h ! 0 else [], map (deref h) st)))"

definition store_ok :: "addr \<Rightarrow> ref_state \<Rightarrow> bool" where
  "store_ok colors_at s \<longleftrightarrow>
     colors_at < length (fst s) \<and>
     (\<forall>x \<in> set (snd s). \<forall>p. ref_partial x = Some p \<longrightarrow> p < length (fst s) \<and> p \<noteq> colors_at)"

definition unchanged :: "addr \<Rightarrow> ref_state \<Rightarrow> ref_state \<Rightarrow> bool" where
  "unchanged colors_at s s' \<longleftrightarrow>
     length (fst s) \<le> length (fst s') \<and>
     (\<forall>p < length (fst s). p \<noteq> colors_at \<longrightarrow> fst s' ! p = fst s ! p) \<and>
     take (length (snd s)) (snd s') = snd s"

definition assign_shows_color :: "Step \<Rightarrow> bool" where
  "assign_shows_color x \<longleftrightarrow>
     (action x = ''assign'' \<longrightarrow> (\<exists>p. partial x = Some p \<and> map_of p (node x) = color x))"

section \<open>Properties\<close>

lemmas build_defs = build_adj_def init_adj_def add_edge_def append_neighbor_def setitem_def
  contains_def keys_def

lemma contains_map_of: "contains d key \<longleftrightarrow> map_of d key \<noteq> None"
  by (simp add: contains_def keys_def map_of_eq_None_iff)

lemma getitem_neighbors: "getitem adj u = Inr l \<Longrightarrow> neighbors adj u = l"
  by (simp add: getitem_def neighbors_def get_def split: option.splits)

lemma getitem_contains: "contains d key \<Longrightarrow> getitem d key = Inr (get d key dflt)"
  by (auto simp: contains_map_of getitem_def get_def)

lemma neighbors_not_contains: "\<not> contains adj u \<Longrightarrow> neighbors adj u = []"
  by (simp add: contains_map_of neighbors_def get_def)

lemma keys_setitem:
  "keys (setitem d key v) = (if key \<in> set (keys d) then keys d else keys d @ [key])"
  by (simp add: keys_def setitem_def update_keys)

lemma keys_append_neighbor [simp]: "keys (append_neighbor adj a b) = keys adj"
  by (auto simp: append_neighbor_def keys_def update_keys split: option.splits
           dest!: map_of_SomeD intro: rev_image_eqI)

lemma keys_add_edge [simp]: "keys (add_edge adj e) = keys adj"
  by (simp add: add_edge_def)

lemma keys_foldl_add_edge [simp]: "keys (foldl add_edge adj es) = keys adj"
  by (induction es arbitrary: adj) simp_all

lemma contains_add_edge [simp]: "contains (add_edge adj e) x = contains adj x"
  by (simp add: contains_def)

lemma contains_foldl_add_edge [simp]: "contains (foldl add_edge adj es) x = contains adj x"
  by (simp add: contains_def)

lemma keys_foldl_setitem:
  "distinct (keys d @ ns) \<Longrightarrow> keys (foldl (\<lambda>d u. setitem d u v) d ns) = keys d @ ns"
  by (induction ns arbitrary: d) (auto simp: keys_setitem)

lemma set_keys_foldl_setitem:
  "set (keys (foldl (\<lambda>d u. setitem d u v) d ns)) = set (keys d) \<union> set ns"
  by (induction ns arbitrary: d) (auto simp: keys_setitem)

lemma distinct_keys_foldl_setitem:
  "distinct (keys d) \<Longrightarrow> distinct (keys (foldl (\<lambda>d u. setitem d u v) d ns))"
  by (induction ns arbitrary: d) (auto simp: keys_setitem)

lemma map_of_foldl_setitem:
  "map_of (foldl (\<lambda>d u. setitem d u v) d ns) x = (if x \<in> set ns then Some v else map_of d x)"
  by (induction ns arbitrary: d) (auto simp: setitem_def update_conv')

lemma keys_init_adj: "distinct ns \<Longrightarrow> keys (init_adj ns) = ns"
  using keys_foldl_setitem [of "[]" ns "[]"] by (simp add: init_adj_def keys_def)

lemma set_keys_init_adj [simp]: "set (keys (init_adj ns)) = set ns"
  using set_keys_foldl_setitem [of "[]" "[]" ns] by (simp add: init_adj_def keys_def)

lemma distinct_keys_init_adj [simp]: "distinct (keys (init_adj ns))"
  using distinct_keys_foldl_setitem [of "[]" "[]" ns] by (simp add: init_adj_def keys_def)

lemma neighbors_init_adj [simp]: "neighbors (init_adj ns) u = []"
  by (simp add: neighbors_def get_def init_adj_def map_of_foldl_setitem)

lemma keys_build_adj [simp]: "keys (build_adj ns es) = keys (init_adj ns)"
  by (simp add: build_adj_def)

lemma neighbors_append_neighbor:
  "neighbors (append_neighbor adj a b) x =
     (if x = a \<and> contains adj a \<and> b \<notin> set (neighbors adj a)
      then neighbors adj a @ [b] else neighbors adj x)"
  by (auto simp: append_neighbor_def neighbors_def get_def update_conv' contains_map_of
           split: option.splits)

lemma neighbors_add_edge:
  "neighbors (add_edge adj e) x =
     (if contains adj (src e) \<and> contains adj (dst e) \<and> src e \<noteq> dst e
      then (if x = src e \<and> dst e \<notin> set (neighbors adj (src e))
              then neighbors adj (src e) @ [dst e]
            else if x = dst e \<and> src e \<notin> set (neighbors adj (dst e))
              then neighbors adj (dst e) @ [src e]
            else neighbors adj x)
      else neighbors adj x)"
  by (auto simp: add_edge_def neighbors_append_neighbor contains_def)

lemma append_neighbor_present:
  "b \<in> set (neighbors adj a) \<Longrightarrow> append_neighbor adj a b = adj"
  by (auto simp: append_neighbor_def neighbors_def get_def split: option.splits)

lemma add_edge_present:
  "dst e \<in> set (neighbors adj (src e)) \<Longrightarrow> src e \<in> set (neighbors adj (dst e))
   \<Longrightarrow> add_edge adj e = adj"
  by (simp add: add_edge_def append_neighbor_present)

lemma add_edge_dropped:
  "src e = dst e \<or> \<not> contains adj (src e) \<or> \<not> contains adj (dst e) \<Longrightarrow> add_edge adj e = adj"
  by (auto simp: add_edge_def)

lemma neighbors_add_edge_mono: "set (neighbors adj x) \<subseteq> set (neighbors (add_edge adj e) x)"
  by (auto simp: neighbors_add_edge)

lemma neighbors_foldl_mono: "set (neighbors adj x) \<subseteq> set (neighbors (foldl add_edge adj es) x)"
proof (induction es arbitrary: adj)
  case Nil
  show ?case by simp
next
  case (Cons e es)
  show ?case using neighbors_add_edge_mono [of adj x e] Cons.IH [of "add_edge adj e"] by auto
qed

lemma add_edge_adds:
  assumes "contains adj (src e)" "contains adj (dst e)" "src e \<noteq> dst e"
  shows "dst e \<in> set (neighbors (add_edge adj e) (src e))"
    and "src e \<in> set (neighbors (add_edge adj e) (dst e))"
  using assms by (auto simp: neighbors_add_edge)

lemma src_flip [simp]: "src (flip e) = dst e" and dst_flip [simp]: "dst (flip e) = src e"
  by (simp_all add: flip_def)

lemma add_edge_again:
  assumes "e' = e \<or> e' = flip e"
  shows "add_edge (foldl add_edge (add_edge adj e) es) e' = foldl add_edge (add_edge adj e) es"
proof (cases "contains adj (src e) \<and> contains adj (dst e) \<and> src e \<noteq> dst e")
  case True
  let ?A = "foldl add_edge (add_edge adj e) es"
  from True have "dst e \<in> set (neighbors (add_edge adj e) (src e))"
    and "src e \<in> set (neighbors (add_edge adj e) (dst e))"
    by (simp_all add: add_edge_adds)
  then have "dst e \<in> set (neighbors ?A (src e))" and "src e \<in> set (neighbors ?A (dst e))"
    using neighbors_foldl_mono by blast+
  with assms show ?thesis by (auto intro: add_edge_present)
next
  case False
  then have "src e' = dst e' \<or> \<not> contains adj (src e') \<or> \<not> contains adj (dst e')"
    using assms by auto
  then show ?thesis by (intro add_edge_dropped) auto
qed

lemma adj_ok_add_edge: "adj_ok adj \<Longrightarrow> adj_ok (add_edge adj e)"
  unfolding adj_ok_def
  apply (simp add: neighbors_add_edge)
  apply (auto simp: contains_def)
  done

lemma adj_ok_foldl: "adj_ok adj \<Longrightarrow> adj_ok (foldl add_edge adj es)"
  by (induction es arbitrary: adj) (simp_all add: adj_ok_add_edge)

lemma adj_ok_build_adj: "adj_ok (build_adj ns es)"
  unfolding build_adj_def by (rule adj_ok_foldl) (simp add: adj_ok_def)

lemma traverse_total: "(\<And>x. x \<in> set xs \<Longrightarrow> f x = Inr (g x)) \<Longrightarrow> traverse f xs = Inr (map g xs)"
  by (induction xs) simp_all

lemma degree_key_contains:
  "u \<in> set (keys adj) \<Longrightarrow> degree_key adj u = Inr (int (degree adj u))"
  by (auto simp: degree_key_def degree_def neighbors_def getitem_def get_def keys_def
                 map_of_eq_None_iff split: option.splits)

lemma zip_map_self: "zip (map g xs) xs = map (\<lambda>x. (g x, x)) xs"
  by (induction xs) simp_all

lemma insort_key_decorated:
  "insort_key fst (g a, a) (map (\<lambda>x. (g x, x)) ys) = map (\<lambda>x. (g x, x)) (insort_key g a ys)"
  by (induction ys) simp_all

lemma sort_key_decorated:
  "sort_key fst (map (\<lambda>x. (g x, x)) ys) = map (\<lambda>x. (g x, x)) (sort_key g ys)"
  by (induction ys) (simp_all add: insort_key_decorated)

lemma sorted_reverse_total:
  assumes "\<And>x. x \<in> set xs \<Longrightarrow> key x = Inr (g x)"
  shows "sorted_reverse key xs = Inr (rev (sort_key g (rev xs)))"
proof -
  have "traverse key xs = Inr (map g xs)" using assms by (rule traverse_total)
  then show ?thesis
    by (simp add: sorted_reverse_def zip_map_self rev_map sort_key_decorated o_def)
qed

lemma order_nodes_degree:
  "order_nodes adj ''degree'' = Inr (rev (sort_key (\<lambda>u. int (degree adj u)) (rev (keys adj))))"
  unfolding order_nodes_def using sorted_reverse_total [of "keys adj" "degree_key adj"]
  by (simp add: degree_key_contains)

lemma order_nodes_total: "\<exists>ns. order_nodes adj ord = Inr ns \<and> mset ns = mset (keys adj)"
  by (cases "ord = ''degree''") (simp_all add: order_nodes_degree, simp add: order_nodes_def)

lemma sort_key_all_equal:
  assumes "\<And>x. x \<in> set ys \<Longrightarrow> g x = n"
  shows "sort_key g ys = ys"
proof -
  have "filter (\<lambda>y. g y = n) (sort_key g ys) = sort_key g ys"
    using assms by (intro filter_True) simp
  moreover have "filter (\<lambda>y. g y = n) ys = ys" using assms by (intro filter_True) simp
  ultimately show ?thesis using sort_key_stable [of g n ys] by simp
qed

text \<open>
  Claim C6. With the strategy \<^verbatim>\<open>"degree"\<close>, \<^const>\<open>order_nodes\<close> returns a permutation of the
  keys of the adjacency dictionary, sorted by descending neighbour count; vertices of equal
  degree keep the order they have among the keys (the sort is stable), so a graph whose vertices
  all have the same degree comes back in key order. The keys of \<^const>\<open>build_adj\<close> are the input
  vertex list when that list has no repetition.
\<close>

theorem order_nodes_degree_stable:
  "\<exists>r. order_nodes adj ''degree'' = Inr r \<and>
       mset r = mset (keys adj) \<and>
       sorted_wrt (\<lambda>a b. degree adj a \<ge> degree adj b) r \<and>
       (\<forall>n. filter (\<lambda>u. degree adj u = n) r = filter (\<lambda>u. degree adj u = n) (keys adj)) \<and>
       ((\<forall>u \<in> set (keys adj). \<forall>v \<in> set (keys adj). degree adj u = degree adj v) \<longrightarrow> r = keys adj) \<and>
       (distinct ns \<longrightarrow> keys (build_adj ns es) = ns)"
proof -
  let ?g = "\<lambda>u. int (degree adj u)"
  let ?r = "rev (sort_key ?g (rev (keys adj)))"
  have r: "order_nodes adj ''degree'' = Inr ?r" by (rule order_nodes_degree)
  have m: "mset ?r = mset (keys adj)" by simp
  have "sorted (map ?g (sort_key ?g (rev (keys adj))))" by (rule sorted_sort_key)
  then have s: "sorted_wrt (\<lambda>a b. degree adj a \<ge> degree adj b) ?r"
    by (simp add: sorted_map sorted_wrt_rev)
  have f: "filter (\<lambda>u. degree adj u = n) ?r = filter (\<lambda>u. degree adj u = n) (keys adj)" for n
  proof -
    have "filter (\<lambda>u. ?g u = int n) (sort_key ?g (rev (keys adj)))
          = filter (\<lambda>u. ?g u = int n) (rev (keys adj))"
      by (rule sort_key_stable)
    then show ?thesis by (simp add: rev_filter [symmetric])
  qed
  have e: "?r = keys adj"
    if "\<forall>u \<in> set (keys adj). \<forall>v \<in> set (keys adj). degree adj u = degree adj v"
  proof (cases "keys adj")
    case Nil
    then show ?thesis by simp
  next
    case (Cons a as)
    have "sort_key ?g (rev (keys adj)) = rev (keys adj)"
      using that Cons by (intro sort_key_all_equal [where n = "?g a"]) auto
    then show ?thesis by simp
  qed
  have k: "distinct ns \<longrightarrow> keys (build_adj ns es) = ns" by (simp add: keys_init_adj)
  from r m s f e k show ?thesis by blast
qed

theorem order_nodes_degree_stable_witness:
  "order_nodes (build_adj [''A'', ''B'', ''C'']
                  [\<lparr>src = ''A'', dst = ''B''\<rparr>, \<lparr>src = ''B'', dst = ''C''\<rparr>,
                   \<lparr>src = ''C'', dst = ''A''\<rparr>]) ''degree''
     = Inr [''A'', ''B'', ''C'']"
proof -
  define adj where "adj = build_adj [''A'', ''B'', ''C'']
                  [\<lparr>src = ''A'', dst = ''B''\<rparr>, \<lparr>src = ''B'', dst = ''C''\<rparr>,
                   \<lparr>src = ''C'', dst = ''A''\<rparr>]"
  have a: "adj = [(''A'', [''B'', ''C'']), (''B'', [''A'', ''C'']), (''C'', [''B'', ''A''])]"
    unfolding adj_def by (simp add: build_defs)
  have k: "keys adj = [''A'', ''B'', ''C'']" unfolding a by (simp add: keys_def)
  have d: "\<forall>u \<in> set (keys adj). \<forall>v \<in> set (keys adj). degree adj u = degree adj v"
    unfolding k unfolding a by (simp add: degree_def neighbors_def get_def)
  from order_nodes_degree_stable [of adj]
  obtain r where r: "order_nodes adj ''degree'' = Inr r"
    and e: "(\<forall>u \<in> set (keys adj). \<forall>v \<in> set (keys adj). degree adj u = degree adj v)
            \<longrightarrow> r = keys adj"
    by blast
  from e d have "r = keys adj" by (rule mp)
  with r k have "order_nodes adj ''degree'' = Inr [''A'', ''B'', ''C'']" by (simp only:)
  then show ?thesis unfolding adj_def .
qed

text \<open>
  Claim C5. A request whose \<^verbatim>\<open>k_colors\<close> lies outside 2..5, or whose vertex list is empty, is
  answered without building the graph or searching: \<^const>\<open>solve\<close> returns a response (never an
  error) with \<^verbatim>\<open>ok = False\<close>, no colours, no steps and the validation message of the failed
  check.
\<close>

theorem solve_rejects_bad_input:
  "k_colors req < 2 \<or> 5 < k_colors req \<or> nodes req = [] \<Longrightarrow>
   solve req = Inr \<lparr>ok = False, colors = [], steps = [],
                    message = (if 2 \<le> k_colors req \<and> k_colors req \<le> 5
                               then ''Debes enviar nodos.''
                               else ''k_colors debe estar entre 2 y 5.'')\<rparr>"
  by (auto simp: solve_def)

theorem solve_rejects_bad_input_witness:
  "k_colors \<lparr>nodes = [''A''], edges = [], k_colors = 0, order = None\<rparr> < 2 \<and>
   solve \<lparr>nodes = [''A''], edges = [], k_colors = 0, order = None\<rparr>
     = Inr \<lparr>ok = False, colors = [], steps = [],
            message = ''k_colors debe estar entre 2 y 5.''\<rparr> \<and>
   nodes \<lparr>nodes = [], edges = [], k_colors = 3, order = None\<rparr> = [] \<and>
   solve \<lparr>nodes = [], edges = [], k_colors = 3, order = None\<rparr>
     = Inr \<lparr>ok = False, colors = [], steps = [], message = ''Debes enviar nodos.''\<rparr>"
  using solve_rejects_bad_input [of "\<lparr>nodes = [''A''], edges = [], k_colors = 0, order = None\<rparr>"]
        solve_rejects_bad_input [of "\<lparr>nodes = [], edges = [], k_colors = 3, order = None\<rparr>"]
  by simp

text \<open>
  Claim C8. Every order string other than \<^verbatim>\<open>"degree"\<close> makes \<^const>\<open>order_nodes\<close> return the keys
  of the adjacency dictionary in their own order, which is the input order of the vertices, and
  never an error. In \<^const>\<open>solve\<close> an order that is \<^verbatim>\<open>None\<close>, empty, or left at the declared
  default behaves as \<^verbatim>\<open>"degree"\<close>.
\<close>

theorem order_fallback:
  "(ord \<noteq> ''degree'' \<longrightarrow> order_nodes adj ord = Inr (keys adj)) \<and>
   (distinct ns \<longrightarrow> keys (build_adj ns es) = ns) \<and>
   (order req = None \<or> order req = Some '''' \<or> order req = order_default
      \<longrightarrow> solve req = solve (req\<lparr>order := Some ''degree''\<rparr>))"
  by (auto simp: order_nodes_def keys_init_adj solve_def order_default_def)

theorem order_fallback_witness:
  "order_nodes [(''B'', [''A'']), (''A'', [''B''])] ''foo'' = Inr [''B'', ''A''] \<and>
   keys (build_adj [''B'', ''A''] []) = [''B'', ''A''] \<and>
   solve \<lparr>nodes = [''A''], edges = [], k_colors = 2, order = None\<rparr>
     = solve \<lparr>nodes = [''A''], edges = [], k_colors = 2, order = Some ''degree''\<rparr>"
  using order_fallback [of "''foo''" "[(''B'', [''A'']), (''A'', [''B''])]" "[''B'', ''A'']" "[]"
          "\<lparr>nodes = [''A''], edges = [], k_colors = 2, order = None\<rparr>"]
  by (simp add: keys_def)

text \<open>
  Claim C7. Supplying an edge a second time, in the same or in the opposite direction, anywhere
  later in the edge list leaves the result of \<^const>\<open>build_adj\<close> unchanged; a self-loop or an
  edge with an endpoint outside the vertex list is dropped; and in the result every neighbour
  list is duplicate-free, holds only vertices of the list, never the vertex itself, and the
  relation is symmetric.
\<close>

theorem build_adj_idempotent:
  "(e' = e \<or> e' = flip e \<longrightarrow>
      build_adj ns (es1 @ e # es2 @ e' # es3) = build_adj ns (es1 @ e # es2 @ es3)) \<and>
   (src e = dst e \<or> src e \<notin> set ns \<or> dst e \<notin> set ns \<longrightarrow>
      build_adj ns (es1 @ e # es2) = build_adj ns (es1 @ es2)) \<and>
   (\<forall>u l. getitem (build_adj ns es) u = Inr l \<longrightarrow>
      u \<in> set ns \<and> distinct l \<and> u \<notin> set l \<and> set l \<subseteq> set ns \<and>
      (\<forall>v \<in> set l. \<exists>l'. getitem (build_adj ns es) v = Inr l' \<and> u \<in> set l'))"
proof (intro conjI impI allI)
  assume "e' = e \<or> e' = flip e"
  then show "build_adj ns (es1 @ e # es2 @ e' # es3) = build_adj ns (es1 @ e # es2 @ es3)"
    by (simp add: build_adj_def add_edge_again)
next
  assume "src e = dst e \<or> src e \<notin> set ns \<or> dst e \<notin> set ns"
  then have "add_edge (foldl add_edge (init_adj ns) es1) e = foldl add_edge (init_adj ns) es1"
    by (intro add_edge_dropped) (auto simp: contains_def)
  then show "build_adj ns (es1 @ e # es2) = build_adj ns (es1 @ es2)"
    by (simp add: build_adj_def)
next
  fix u l
  assume g: "getitem (build_adj ns es) u = Inr l"
  let ?A = "build_adj ns es"
  have ok: "adj_ok ?A" by (rule adj_ok_build_adj)
  from g have n: "neighbors ?A u = l" by (rule getitem_neighbors)
  from g have c: "contains ?A u"
    by (simp add: contains_map_of getitem_def split: option.splits)
  then show "u \<in> set ns" by (simp add: contains_def)
  from ok n show "distinct l" "u \<notin> set l" by (auto simp: adj_ok_def)
  from ok n show "set l \<subseteq> set ns" unfolding adj_ok_def by (metis keys_build_adj set_keys_init_adj)
  show "\<forall>v \<in> set l. \<exists>l'. getitem ?A v = Inr l' \<and> u \<in> set l'"
  proof
    fix v assume v: "v \<in> set l"
    with ok n have "v \<in> set (keys ?A)" and "u \<in> set (neighbors ?A v)"
      unfolding adj_ok_def by blast+
    then show "\<exists>l'. getitem ?A v = Inr l' \<and> u \<in> set l'"
      using getitem_contains [of ?A v "[]"] by (simp add: contains_def neighbors_def)
  qed
qed

theorem build_adj_idempotent_witness:
  "build_adj [''A'', ''B''] [\<lparr>src = ''A'', dst = ''B''\<rparr>, \<lparr>src = ''B'', dst = ''A''\<rparr>]
     = build_adj [''A'', ''B''] [\<lparr>src = ''A'', dst = ''B''\<rparr>] \<and>
   build_adj [''A'', ''B''] [\<lparr>src = ''A'', dst = ''A''\<rparr>] = build_adj [''A'', ''B''] [] \<and>
   getitem (build_adj [''A'', ''B''] [\<lparr>src = ''A'', dst = ''B''\<rparr>]) ''A'' = Inr [''B''] \<and>
   (\<exists>l'. getitem (build_adj [''A'', ''B''] [\<lparr>src = ''A'', dst = ''B''\<rparr>]) ''B'' = Inr l'
         \<and> ''A'' \<in> set l')"
proof -
  define ab where "ab = \<lparr>src = ''A'', dst = ''B''\<rparr>"
  define ba where "ba = \<lparr>src = ''B'', dst = ''A''\<rparr>"
  define aa where "aa = \<lparr>src = ''A'', dst = ''A''\<rparr>"
  have f: "ba = flip ab" by (simp add: ab_def ba_def flip_def)
  have l: "src aa = dst aa" by (simp add: aa_def)
  have g: "getitem (build_adj [''A'', ''B''] [ab]) ''A'' = Inr [''B'']"
    by (simp add: ab_def build_defs getitem_def)
  have c1: "build_adj [''A'', ''B''] [ab, ba] = build_adj [''A'', ''B''] [ab]"
    using build_adj_idempotent [where e = ab and e' = ba and ns = "[''A'', ''B'']"
        and ?es1.0 = "[]" and ?es2.0 = "[]" and ?es3.0 = "[]", THEN conjunct1] f
    by simp
  have c2: "build_adj [''A'', ''B''] [aa] = build_adj [''A'', ''B''] []"
    using build_adj_idempotent [where e = aa and ns = "[''A'', ''B'']"
        and ?es1.0 = "[]" and ?es2.0 = "[]", THEN conjunct2, THEN conjunct1] l
    by simp
  have c3: "\<forall>v \<in> set [''B'']. \<exists>l'. getitem (build_adj [''A'', ''B''] [ab]) v = Inr l'
                \<and> ''A'' \<in> set l'"
    using build_adj_idempotent [where ns = "[''A'', ''B'']" and es = "[ab]",
        THEN conjunct2, THEN conjunct2] g
    by blast
  then have c4: "\<exists>l'. getitem (build_adj [''A'', ''B''] [ab]) ''B'' = Inr l' \<and> ''A'' \<in> set l'"
    by simp
  from c1 c2 g c4 show ?thesis unfolding ab_def ba_def aa_def by (intro conjI)
qed

declare backtrack.simps [simp del] color_loop.simps [simp del]

lemma color_loop_Cons:
  "color_loop adj k ns i u (c # cs) (cols, st) =
     (case compatible u c cols adj of
        Inl e \<Rightarrow> Inl e
      | Inr True \<Rightarrow>
          (case backtrack adj k ns (i + 1)
                  (setitem cols u c,
                   st @ [record_step ''try'' u (Some c) cols,
                         record_step ''assign'' u (Some c) (setitem cols u c)]) of
             Inl e \<Rightarrow> Inl e
           | Inr (True, s') \<Rightarrow> Inr (True, s')
           | Inr (False, cols2, st3) \<Rightarrow>
               (case delitem cols2 u of
                  Inl e \<Rightarrow> Inl e
                | Inr cols3 \<Rightarrow>
                    color_loop adj k ns i u cs
                      (cols3, st3 @ [record_step ''backtrack'' u (Some c) cols2])))
      | Inr False \<Rightarrow>
          color_loop adj k ns i u cs
            (cols, st @ [record_step ''try'' u (Some c) cols,
                         record_step ''conflict'' u (Some c) cols]))"
  by (simp add: color_loop.simps Let_def split: sum.splits bool.splits)

lemma color_loop_Cons_cases [consumes 1, case_names conflict success retry]:
  assumes "color_loop adj k ns i u (c # cs) (cols, st) = Inr (b, s')"
  obtains
    "compatible u c cols adj = Inr False"
    "color_loop adj k ns i u cs
       (cols, st @ [record_step ''try'' u (Some c) cols,
                    record_step ''conflict'' u (Some c) cols]) = Inr (b, s')"
  | "compatible u c cols adj = Inr True" "b"
    "backtrack adj k ns (i + 1)
       (setitem cols u c,
        st @ [record_step ''try'' u (Some c) cols,
              record_step ''assign'' u (Some c) (setitem cols u c)]) = Inr (True, s')"
  | cols2 st3 cols3 where
    "compatible u c cols adj = Inr True"
    "backtrack adj k ns (i + 1)
       (setitem cols u c,
        st @ [record_step ''try'' u (Some c) cols,
              record_step ''assign'' u (Some c) (setitem cols u c)]) = Inr (False, cols2, st3)"
    "delitem cols2 u = Inr cols3"
    "color_loop adj k ns i u cs
       (cols3, st3 @ [record_step ''backtrack'' u (Some c) cols2]) = Inr (b, s')"
  using assms unfolding color_loop_Cons
  by (auto split: sum.splits bool.splits prod.splits)

lemma backtrack_cases [consumes 1, case_names finish loop]:
  assumes "backtrack adj k ns i (cols, st) = Inr (b, s')"
  obtains
    "i = length ns" "b" "s' = (cols, st @ [record_step ''done'' '''' None cols])"
  | "i < length ns" "color_loop adj k ns i (ns ! i) (py_range k) (cols, st) = Inr (b, s')"
  using assms by (auto simp: backtrack.simps split: if_splits)

lemma search_induct [case_names backtrack Nil Cons]:
  assumes "\<And>adj k ns i cols st.
             (i < length ns \<Longrightarrow> Q adj k ns i (ns ! i) (py_range k) (cols, st))
             \<Longrightarrow> P adj k ns i (cols, st)"
    and "\<And>adj k ns i u cols st. Q adj k ns i u [] (cols, st)"
    and "\<And>adj k ns i u c cs cols st.
           (compatible u c cols adj = Inr True \<Longrightarrow>
              P adj k ns (i + 1)
                (setitem cols u c,
                 st @ [record_step ''try'' u (Some c) cols,
                       record_step ''assign'' u (Some c) (setitem cols u c)])) \<Longrightarrow>
           (\<And>cols2 st3 cols3.
              compatible u c cols adj = Inr True \<Longrightarrow>
              backtrack adj k ns (i + 1)
                (setitem cols u c,
                 st @ [record_step ''try'' u (Some c) cols,
                       record_step ''assign'' u (Some c) (setitem cols u c)])
                = Inr (False, cols2, st3) \<Longrightarrow>
              delitem cols2 u = Inr cols3 \<Longrightarrow>
              Q adj k ns i u cs (cols3, st3 @ [record_step ''backtrack'' u (Some c) cols2])) \<Longrightarrow>
           (compatible u c cols adj = Inr False \<Longrightarrow>
              Q adj k ns i u cs
                (cols, st @ [record_step ''try'' u (Some c) cols,
                             record_step ''conflict'' u (Some c) cols])) \<Longrightarrow>
           Q adj k ns i u (c # cs) (cols, st)"
  shows "P adj k ns i s" and "Q adj k ns i u cs s"
proof (induction adj k ns i s and adj k ns i u cs s rule: backtrack_color_loop.induct)
  case (1 adj k ns i cols st)
  show ?case by (rule assms(1)) (use 1 in simp)
next
  case (2 adj k ns i u cols st)
  show ?case by (rule assms(2))
next
  case (3 adj k ns i u c cs cols st)
  show ?case
  proof (rule assms(3))
    assume "compatible u c cols adj = Inr True"
    then show "P adj k ns (i + 1)
                (setitem cols u c,
                 st @ [record_step ''try'' u (Some c) cols,
                       record_step ''assign'' u (Some c) (setitem cols u c)])"
      using "3.IH"(1) by simp
  next
    fix cols2 st3 cols3
    assume a1: "compatible u c cols adj = Inr True"
      and a2: "backtrack adj k ns (i + 1)
                (setitem cols u c,
                 st @ [record_step ''try'' u (Some c) cols,
                       record_step ''assign'' u (Some c) (setitem cols u c)])
                = Inr (False, cols2, st3)"
      and a3: "delitem cols2 u = Inr cols3"
    from a2 have bt: "backtrack adj k ns (i + 1)
                (setitem cols u c,
                 (st @ [record_step ''try'' u (Some c) cols]) @
                 [record_step ''assign'' u (Some c) (setitem cols u c)])
                = Inr (False, cols2, st3)" by simp
    show "Q adj k ns i u cs (cols3, st3 @ [record_step ''backtrack'' u (Some c) cols2])"
      by (rule "3.IH"(2) [OF refl a1 refl refl refl bt refl refl refl a3])
  next
    assume a: "compatible u c cols adj = Inr False"
    have "Q adj k ns i u cs
            (cols, (st @ [record_step ''try'' u (Some c) cols]) @
                   [record_step ''conflict'' u (Some c) cols])"
      by (rule "3.IH"(3) [OF refl a refl])
    then show "Q adj k ns i u cs
                (cols, st @ [record_step ''try'' u (Some c) cols,
                             record_step ''conflict'' u (Some c) cols])"
      by simp
  qed
qed

lemma nth_notin_take: "distinct ns \<Longrightarrow> i < length ns \<Longrightarrow> ns ! i \<notin> set (take i ns)"
  by (metis distinct_take id_take_nth_drop not_distinct_conv_prefix take_Suc_conv_app_nth distinct_append distinct.simps(2) append.simps disjoint_iff list.set_intros(1) set_append Un_iff)

lemma keys_setitem_next:
  "distinct ns \<Longrightarrow> i < length ns \<Longrightarrow> keys cols = take i ns
   \<Longrightarrow> keys (setitem cols (ns ! i) c) = take (Suc i) ns"
  by (simp add: keys_setitem nth_notin_take take_Suc_conv_app_nth)

lemma update_fresh: "key \<notin> fst ` set al \<Longrightarrow> AList.update key v al = al @ [(key, v)]"
  by (induction al) auto

lemma delitem_setitem: "key \<notin> set (keys d) \<Longrightarrow> delitem (setitem d key v) key = Inr d"
  by (simp add: delitem_def contains_def setitem_def delete_update_same keys_def dom_update)

lemma search_frame:
  "distinct ns \<Longrightarrow> keys (fst s) = take i ns \<Longrightarrow> backtrack adj k ns i s = Inr (b, s')
   \<Longrightarrow> (if b then keys (fst s') = ns else fst s' = fst s)"
  "distinct ns \<Longrightarrow> i < length ns \<Longrightarrow> u = ns ! i \<Longrightarrow> keys (fst s) = take i ns
   \<Longrightarrow> color_loop adj k ns i u cs s = Inr (b, s')
   \<Longrightarrow> (if b then keys (fst s') = ns else fst s' = fst s)"
proof (induction adj k ns i s and adj k ns i u cs s arbitrary: b s' and b s' rule: search_induct)
  case (backtrack adj k ns i cols st)
  from backtrack.prems(3) show ?case
  proof (cases rule: backtrack_cases)
    case finish
    with backtrack.prems show ?thesis by simp
  next
    case loop
    with backtrack.IH backtrack.prems show ?thesis by simp
  qed
next
  case (Nil adj k ns i u cols st)
  then show ?case by (simp add: color_loop.simps)
next
  case (Cons adj k ns i u c cs cols st)
  have next_keys: "keys (setitem cols u c) = take (i + 1) ns"
    using Cons.prems by (simp add: keys_setitem_next)
  have fresh: "u \<notin> set (keys cols)" using Cons.prems by (simp add: nth_notin_take)
  from Cons.prems(5) show ?case
  proof (cases rule: color_loop_Cons_cases)
    case conflict
    with Cons.IH(3) Cons.prems show ?thesis by simp
  next
    case success
    with Cons.IH(1) [OF success(1) Cons.prems(1) _ success(3)] next_keys show ?thesis by simp
  next
    case (retry cols2 st3 cols3)
    from Cons.IH(1) [OF retry(1) Cons.prems(1) _ retry(2)] next_keys
    have "cols2 = setitem cols u c" by simp
    with retry(3) fresh have "cols3 = cols" by (simp add: delitem_setitem)
    with Cons.IH(2) [OF retry(1,2,3) Cons.prems(1,2,3) _ retry(4)] Cons.prems(4)
    show ?thesis by simp
  qed
qed

lemma compatible_total:
  "u \<in> set (keys adj) \<Longrightarrow> \<exists>x. compatible u c cols adj = Inr x"
  by (auto simp: compatible_def getitem_def keys_def map_of_eq_None_iff split: option.splits)

lemma search_total:
  "distinct ns \<Longrightarrow> set ns \<subseteq> set (keys adj) \<Longrightarrow> i \<le> length ns \<Longrightarrow> keys (fst s) = take i ns
   \<Longrightarrow> \<exists>r. backtrack adj k ns i s = Inr r"
  "distinct ns \<Longrightarrow> set ns \<subseteq> set (keys adj) \<Longrightarrow> i < length ns \<Longrightarrow> u = ns ! i
   \<Longrightarrow> keys (fst s) = take i ns \<Longrightarrow> \<exists>r. color_loop adj k ns i u cs s = Inr r"
proof (induction adj k ns i s and adj k ns i u cs s rule: search_induct)
  case (backtrack adj k ns i cols st)
  show ?case
  proof (cases "i = length ns")
    case True
    then show ?thesis by (auto simp: backtrack.simps)
  next
    case False
    with backtrack.prems have "i < length ns" by simp
    with backtrack.IH backtrack.prems show ?thesis by (simp add: backtrack.simps)
  qed
next
  case (Nil adj k ns i u cols st)
  show ?case by (auto simp: color_loop.simps)
next
  case (Cons adj k ns i u c cs cols st)
  have next_keys: "keys (setitem cols u c) = take (i + 1) ns"
    using Cons.prems by (simp add: keys_setitem_next)
  have fresh: "u \<notin> set (keys cols)" using Cons.prems by (simp add: nth_notin_take)
  have "u \<in> set ns" using Cons.prems by simp
  with Cons.prems(2) have "u \<in> set (keys adj)" by blast
  then obtain x where x: "compatible u c cols adj = Inr x"
    using compatible_total [of u adj c cols] by auto
  show ?case
  proof (cases x)
    case False
    with x have cf: "compatible u c cols adj = Inr False" by simp
    from Cons.IH(3) [OF cf Cons.prems(1,2,3,4)] Cons.prems(5)
    obtain r where "color_loop adj k ns i u cs
          (cols, st @ [record_step ''try'' u (Some c) cols,
                       record_step ''conflict'' u (Some c) cols]) = Inr r" by auto
    with cf have "color_loop adj k ns i u (c # cs) (cols, st) = Inr r"
      by (simp add: color_loop_Cons)
    then show ?thesis by blast
  next
    case True
    with x have ct: "compatible u c cols adj = Inr True" by simp
    let ?s1 = "(setitem cols u c,
                st @ [record_step ''try'' u (Some c) cols,
                      record_step ''assign'' u (Some c) (setitem cols u c)])"
    from Cons.IH(1) [OF ct Cons.prems(1,2)] Cons.prems(3) next_keys
    obtain b cols2 st3 where r: "backtrack adj k ns (i + 1) ?s1 = Inr (b, cols2, st3)"
      by (metis Suc_eq_plus1 Suc_leI fst_conv prod_cases3)
    show ?thesis
    proof (cases b)
      case True
      with r ct have "color_loop adj k ns i u (c # cs) (cols, st) = Inr (True, cols2, st3)"
        by (simp add: color_loop_Cons)
      then show ?thesis by blast
    next
      case False
      with r have r': "backtrack adj k ns (i + 1) ?s1 = Inr (False, cols2, st3)" by simp
      from search_frame(1) [OF Cons.prems(1) _ r'] next_keys
      have "cols2 = setitem cols u c" by simp
      with fresh have d: "delitem cols2 u = Inr cols" by (simp add: delitem_setitem)
      from Cons.IH(2) [OF ct r' d Cons.prems(1,2,3,4)] Cons.prems(5)
      obtain r2 where "color_loop adj k ns i u cs
          (cols, st3 @ [record_step ''backtrack'' u (Some c) cols2]) = Inr r2" by auto
      with ct r' d have "color_loop adj k ns i u (c # cs) (cols, st) = Inr r2"
        by (simp add: color_loop_Cons)
      then show ?thesis by blast
    qed
  qed
qed

lemma nth_in_drop: "i < length ns \<Longrightarrow> ns ! i \<in> set (drop i ns)"
  by (metis Cons_nth_drop_Suc list.set_intros(1))

lemma drop_Suc_subset: "set (drop (Suc i) ns) \<subseteq> set (drop i ns)"
  by (simp add: set_drop_subset_set_drop)

lemma search_steps:
  "backtrack adj k ns i s = Inr (b, s')
   \<Longrightarrow> \<exists>T. snd s' = snd s @ T \<and> (\<forall>x \<in> set T. action x = ''done'' \<or> node x \<in> set (drop i ns))"
  "i < length ns \<Longrightarrow> u = ns ! i \<Longrightarrow> color_loop adj k ns i u cs s = Inr (b, s')
   \<Longrightarrow> \<exists>T. snd s' = snd s @ T \<and> (\<forall>x \<in> set T. action x = ''done'' \<or> node x \<in> set (drop i ns))"
proof (induction adj k ns i s and adj k ns i u cs s arbitrary: b s' and b s' rule: search_induct)
  case (backtrack adj k ns i cols st)
  from backtrack.prems show ?case
  proof (cases rule: backtrack_cases)
    case finish
    then show ?thesis by (simp add: record_step_def)
  next
    case loop
    with backtrack.IH show ?thesis by simp
  qed
next
  case (Nil adj k ns i u cols st)
  then show ?case by (simp add: color_loop.simps)
next
  case (Cons adj k ns i u c cs cols st)
  have u: "u \<in> set (drop i ns)" using Cons.prems by (simp add: nth_in_drop)
  have sub: "\<And>x. x \<in> set (drop (i + 1) ns) \<Longrightarrow> x \<in> set (drop i ns)"
    using drop_Suc_subset [of i ns] by auto
  from Cons.prems(3) show ?case
  proof (cases rule: color_loop_Cons_cases)
    case conflict
    from Cons.IH(3) [OF conflict(1) Cons.prems(1,2) conflict(2)]
    obtain T where "snd s' = (st @ [record_step ''try'' u (Some c) cols,
                         record_step ''conflict'' u (Some c) cols]) @ T"
      and "\<forall>x \<in> set T. action x = ''done'' \<or> node x \<in> set (drop i ns)" by auto
    with u show ?thesis by (auto simp: record_step_def)
  next
    case success
    from Cons.IH(1) [OF success(1,3)]
    obtain T where "snd s' = (st @ [record_step ''try'' u (Some c) cols,
                       record_step ''assign'' u (Some c) (setitem cols u c)]) @ T"
      and "\<forall>x \<in> set T. action x = ''done'' \<or> node x \<in> set (drop (i + 1) ns)" by auto
    with u sub show ?thesis by (auto simp: record_step_def)
  next
    case (retry cols2 st3 cols3)
    from Cons.IH(1) [OF retry(1,2)]
    obtain T where T: "st3 = (st @ [record_step ''try'' u (Some c) cols,
                       record_step ''assign'' u (Some c) (setitem cols u c)]) @ T"
      and T': "\<forall>x \<in> set T. action x = ''done'' \<or> node x \<in> set (drop (i + 1) ns)" by auto
    from Cons.IH(2) [OF retry(1,2,3) Cons.prems(1,2) retry(4)]
    obtain T2 where "snd s' = (st3 @ [record_step ''backtrack'' u (Some c) cols2]) @ T2"
      and "\<forall>x \<in> set T2. action x = ''done'' \<or> node x \<in> set (drop i ns)" by auto
    with T T' u sub show ?thesis by (auto simp: record_step_def)
  qed
qed

lemma compatible_loop_iff:
  "compatible_loop vs c cols \<longleftrightarrow> (\<forall>v \<in> set vs. get cols v (- 1) \<noteq> c)"
  by (induction vs) simp_all

lemma compatible_True:
  "compatible u c cols adj = Inr True \<Longrightarrow> v \<in> set (neighbors adj u) \<Longrightarrow> map_of cols v \<noteq> Some c"
  by (auto simp: compatible_def compatible_loop_iff getitem_def neighbors_def get_def
           split: option.splits)

lemma valid_setitem:
  assumes ok: "adj_ok adj" and v: "valid_coloring adj cols"
    and c: "compatible u c cols adj = Inr True"
    and f: "u \<notin> set (keys cols)" and d: "distinct (keys cols)"
  shows "valid_coloring adj (setitem cols u c)"
proof -
  have "map_of (setitem cols u c) w \<noteq> Some c'"
    if m: "(u', c') \<in> set (setitem cols u c)" and w: "w \<in> set (neighbors adj u')"
    for u' c' w
  proof -
  have upd: "setitem cols u c = cols @ [(u, c)]"
    using f by (simp add: setitem_def keys_def update_fresh)
  have look: "map_of (setitem cols u c) w = (if w = u then Some c else map_of cols w)"
    by (simp add: setitem_def update_conv')
  show "map_of (setitem cols u c) w \<noteq> Some c'"
  proof (cases "(u', c') \<in> set cols")
    case True
    then have mu: "map_of cols u' = Some c'" using d by (simp add: keys_def)
    show ?thesis
    proof (cases "w = u")
      case True
      with w ok have "u' \<in> set (neighbors adj u)" by (auto simp: adj_ok_def)
      with c have "map_of cols u' \<noteq> Some c" by (rule compatible_True)
      with mu True look show ?thesis by auto
    next
      case False
      with v \<open>(u', c') \<in> set cols\<close> w look show ?thesis
        by (auto simp: valid_coloring_def)
    qed
  next
    case False
    with m upd have e: "u' = u" "c' = c" by auto
    with w ok have "w \<noteq> u" by (auto simp: adj_ok_def)
    moreover from compatible_True [OF c, of w] w e have "map_of cols w \<noteq> Some c" by simp
    ultimately show ?thesis using look e by simp
  qed
  qed
  then show ?thesis unfolding valid_coloring_def by blast
qed

lemma range_setitem:
  "colors_in_range k cols \<Longrightarrow> 0 \<le> c \<Longrightarrow> c < k \<Longrightarrow> u \<notin> set (keys cols)
   \<Longrightarrow> colors_in_range k (setitem cols u c)"
  by (auto simp: colors_in_range_def setitem_def keys_def update_fresh)

lemma snapshot_valid_record [simp]:
  "snapshot_valid adj (record_step a u c cols) = valid_coloring adj cols"
  by (simp add: snapshot_valid_def record_step_def)

lemma set_py_range [simp]: "set (py_range k) = {0..k - 1}"
  by (simp add: py_range_def)

lemma search_valid:
  "adj_ok adj \<Longrightarrow> distinct ns \<Longrightarrow> keys (fst s) = take i ns \<Longrightarrow> valid_coloring adj (fst s)
   \<Longrightarrow> colors_in_range k (fst s) \<Longrightarrow> (\<forall>x \<in> set (snd s). snapshot_valid adj x)
   \<Longrightarrow> backtrack adj k ns i s = Inr (b, s')
   \<Longrightarrow> valid_coloring adj (fst s') \<and> colors_in_range k (fst s') \<and>
       (\<forall>x \<in> set (snd s'). snapshot_valid adj x)"
  "adj_ok adj \<Longrightarrow> distinct ns \<Longrightarrow> i < length ns \<Longrightarrow> u = ns ! i
   \<Longrightarrow> (\<forall>c \<in> set cs. 0 \<le> c \<and> c < k) \<Longrightarrow> keys (fst s) = take i ns
   \<Longrightarrow> valid_coloring adj (fst s) \<Longrightarrow> colors_in_range k (fst s)
   \<Longrightarrow> (\<forall>x \<in> set (snd s). snapshot_valid adj x)
   \<Longrightarrow> color_loop adj k ns i u cs s = Inr (b, s')
   \<Longrightarrow> valid_coloring adj (fst s') \<and> colors_in_range k (fst s') \<and>
       (\<forall>x \<in> set (snd s'). snapshot_valid adj x)"
proof (induction adj k ns i s and adj k ns i u cs s arbitrary: b s' and b s' rule: search_induct)
  case (backtrack adj k ns i cols st)
  from backtrack.prems(7) show ?case
  proof (cases rule: backtrack_cases)
    case finish
    with backtrack.prems show ?thesis by simp
  next
    case loop
    have "\<forall>c \<in> set (py_range k). 0 \<le> c \<and> c < k" by simp
    from backtrack.IH [OF loop(1) backtrack.prems(1,2) loop(1) refl this
        backtrack.prems(3,4,5,6) loop(2)]
    show ?thesis .
  qed
next
  case (Nil adj k ns i u cols st)
  then show ?case by (auto simp: color_loop.simps)
next
  case (Cons adj k ns i u c cs cols st)
  have next_keys: "keys (setitem cols u c) = take (i + 1) ns"
    using Cons.prems by (simp add: keys_setitem_next)
  have fresh: "u \<notin> set (keys cols)" using Cons.prems by (simp add: nth_notin_take)
  have dk: "distinct (keys cols)" using Cons.prems by simp
  have cs: "\<forall>c \<in> set cs. 0 \<le> c \<and> c < k" and c: "0 \<le> c" "c < k" using Cons.prems(5) by simp_all
  have v0: "valid_coloring adj cols" and r0: "colors_in_range k cols"
    and s0: "\<forall>x \<in> set st. snapshot_valid adj x" using Cons.prems by simp_all
  from Cons.prems(10) show ?case
  proof (cases rule: color_loop_Cons_cases)
    case conflict
    have "\<forall>x \<in> set (st @ [record_step ''try'' u (Some c) cols,
                       record_step ''conflict'' u (Some c) cols]). snapshot_valid adj x"
      using s0 v0 by simp
    with Cons.IH(3) [OF conflict(1) Cons.prems(1,2,3,4) cs _ _ _ _ conflict(2)] Cons.prems
    show ?thesis by simp
  next
    case success
    have v1: "valid_coloring adj (setitem cols u c)"
      using Cons.prems(1) v0 success(1) fresh dk by (rule valid_setitem)
    have r1: "colors_in_range k (setitem cols u c)" using r0 c fresh by (rule range_setitem)
    have "\<forall>x \<in> set (st @ [record_step ''try'' u (Some c) cols,
                       record_step ''assign'' u (Some c) (setitem cols u c)]).
            snapshot_valid adj x"
      using s0 v0 v1 by simp
    with Cons.IH(1) [OF success(1) Cons.prems(1,2) _ _ _ _ success(3)] next_keys v1 r1
    show ?thesis by simp
  next
    case (retry cols2 st3 cols3)
    have v1: "valid_coloring adj (setitem cols u c)"
      using Cons.prems(1) v0 retry(1) fresh dk by (rule valid_setitem)
    have r1: "colors_in_range k (setitem cols u c)" using r0 c fresh by (rule range_setitem)
    have "\<forall>x \<in> set (st @ [record_step ''try'' u (Some c) cols,
                       record_step ''assign'' u (Some c) (setitem cols u c)]).
            snapshot_valid adj x"
      using s0 v0 v1 by simp
    with Cons.IH(1) [OF retry(1) Cons.prems(1,2) _ _ _ _ retry(2)] next_keys v1 r1
    have s3: "\<forall>x \<in> set st3. snapshot_valid adj x" by simp
    from search_frame(1) [OF Cons.prems(2) _ retry(2)] next_keys
    have c2: "cols2 = setitem cols u c" by simp
    with retry(3) fresh have c3: "cols3 = cols" by (simp add: delitem_setitem)
    have "\<forall>x \<in> set (st3 @ [record_step ''backtrack'' u (Some c) cols2]). snapshot_valid adj x"
      using s3 v1 c2 by simp
    with Cons.IH(2) [OF retry(1,2,3) Cons.prems(1,2,3,4) cs _ _ _ _ retry(4)] c3 Cons.prems
    show ?thesis by simp
  qed
qed

lemma search_conflict:
  "0 < k \<Longrightarrow> backtrack adj k ns i s = Inr (False, s')
   \<Longrightarrow> \<exists>x \<in> set (drop (length (snd s)) (snd s')). action x = ''conflict''"
  "cs \<noteq> [] \<Longrightarrow> 0 < k \<Longrightarrow> i < length ns \<Longrightarrow> u = ns ! i
   \<Longrightarrow> color_loop adj k ns i u cs s = Inr (False, s')
   \<Longrightarrow> \<exists>x \<in> set (drop (length (snd s)) (snd s')). action x = ''conflict''"
proof (induction adj k ns i s and adj k ns i u cs s arbitrary: s' and s' rule: search_induct)
  case (backtrack adj k ns i cols st)
  from backtrack.prems(2) show ?case
  proof (cases rule: backtrack_cases)
    case finish
    then show ?thesis by simp
  next
    case loop
    from backtrack.prems(1) have "py_range k \<noteq> []" by (simp add: py_range_def upto.simps)
    from backtrack.IH [OF loop(1) this backtrack.prems(1) loop(1) refl loop(2)]
    show ?thesis .
  qed
next
  case (Nil adj k ns i u cols st)
  then show ?case by simp
next
  case (Cons adj k ns i u c cs cols st)
  from Cons.prems(5) show ?case
  proof (cases rule: color_loop_Cons_cases)
    case conflict
    from search_steps(2) [OF Cons.prems(3,4) conflict(2)]
    obtain T where "snd s' = (st @ [record_step ''try'' u (Some c) cols,
                         record_step ''conflict'' u (Some c) cols]) @ T" by auto
    then show ?thesis by (simp add: record_step_def)
  next
    case success
    then show ?thesis by simp
  next
    case (retry cols2 st3 cols3)
    let ?st1 = "st @ [record_step ''try'' u (Some c) cols,
                     record_step ''assign'' u (Some c) (setitem cols u c)]"
    from Cons.IH(1) [OF retry(1) Cons.prems(2) retry(2)]
    obtain x where x: "x \<in> set (drop (length ?st1) st3)" "action x = ''conflict''" by auto
    from search_steps(1) [OF retry(2)] obtain T1 where T1: "st3 = ?st1 @ T1" by auto
    from search_steps(2) [OF Cons.prems(3,4) retry(4)]
    obtain T2 where "snd s' = (st3 @ [record_step ''backtrack'' u (Some c) cols2]) @ T2" by auto
    with T1 x show ?thesis by auto
  qed
qed

lemmas search_defs = backtrack.simps color_loop.simps py_range_def compatible_def getitem_def
  get_def setitem_def delitem_def contains_def keys_def record_step_def Let_def upto.simps

lemmas solve_defs = solve_def color_graph_backtracking_def order_nodes_def sorted_reverse_def
  degree_key_def build_adj_def init_adj_def add_edge_def append_neighbor_def search_defs

lemma build_adj_has_edge:
  assumes "e \<in> set es" "src e \<in> set ns" "dst e \<in> set ns" "src e \<noteq> dst e"
  shows "dst e \<in> set (neighbors (build_adj ns es) (src e))"
proof -
  from assms(1) obtain es1 es2 where es: "es = es1 @ e # es2" by (auto dest: split_list)
  let ?A = "foldl add_edge (init_adj ns) es1"
  have "dst e \<in> set (neighbors (add_edge ?A e) (src e))"
    using assms by (intro add_edge_adds) (simp_all add: contains_def)
  then have "dst e \<in> set (neighbors (foldl add_edge (add_edge ?A e) es2) (src e))"
    using neighbors_foldl_mono by blast
  then show ?thesis by (simp add: es build_adj_def)
qed

lemma valid_coloring_Nil [simp]: "valid_coloring adj []" "colors_in_range k []"
  by (simp_all add: valid_coloring_def colors_in_range_def)

lemma keys_lookup:
  assumes "keys cols = ns" "u \<in> set ns"
  shows "\<exists>c. map_of cols u = Some c \<and> (u, c) \<in> set cols"
proof -
  from assms have "u \<in> set (map fst cols)" by (simp add: keys_def)
  then have "u \<in> fst ` set cols" by simp
  then obtain c where "map_of cols u = Some c"
    by (metis map_of_eq_None_iff not_Some_eq)
  then show ?thesis by (auto dest: map_of_SomeD)
qed

lemma solve_run:
  assumes "2 \<le> k_colors req" "k_colors req \<le> 5" "nodes req \<noteq> []"
  obtains ns b cols st where
    "distinct ns" "set ns = set (nodes req)"
    "backtrack (build_adj (nodes req) (edges req)) (k_colors req) ns 0 ([], [])
       = Inr (b, cols, st)"
    "solve req = Inr \<lparr>ok = b, colors = (if b then cols else []), steps = st,
                      message = (if b then msg_found
                                 else ''No existe coloreo con k colores.'')\<rparr>"
proof -
  let ?adj = "build_adj (nodes req) (edges req)"
  let ?ord = "case order req of None \<Rightarrow> ''degree''
              | Some s \<Rightarrow> if s = [] then ''degree'' else s"
  from order_nodes_total [of ?adj ?ord]
  obtain ns where ns: "order_nodes ?adj ?ord = Inr ns" and m: "mset ns = mset (keys ?adj)"
    by blast
  from m have d: "distinct ns"
    by (metis distinct_keys_init_adj keys_build_adj mset_eq_imp_distinct_iff)
  from m have s: "set ns = set (nodes req)"
    by (metis keys_build_adj mset_eq_setD set_keys_init_adj)
  then have sub: "set ns \<subseteq> set (keys ?adj)" by simp
  from search_total(1) [OF d sub, of 0 "([], [])" "k_colors req"]
  obtain r where "backtrack ?adj (k_colors req) ns 0 ([], []) = Inr r"
    by (auto simp: keys_def)
  then obtain b cols st where
    r: "backtrack ?adj (k_colors req) ns 0 ([], []) = Inr (b, cols, st)"
    by (cases r) auto
  have "solve req = Inr \<lparr>ok = b, colors = (if b then cols else []), steps = st,
                      message = (if b then msg_found
                                 else ''No existe coloreo con k colores.'')\<rparr>"
    using assms ns r by (simp add: solve_def color_graph_backtracking_def)
  with d s r show ?thesis by (rule that)
qed

lemma solve_run_valid:
  assumes "distinct ns" "set ns = set (nodes req)"
    and "backtrack (build_adj (nodes req) (edges req)) k ns 0 ([], []) = Inr (b, cols, st)"
  shows "valid_coloring (build_adj (nodes req) (edges req)) cols"
    and "colors_in_range k cols"
    and "\<forall>x \<in> set st. snapshot_valid (build_adj (nodes req) (edges req)) x"
    and "b \<Longrightarrow> keys cols = ns"
proof -
  let ?adj = "build_adj (nodes req) (edges req)"
  have "valid_coloring ?adj (fst (cols, st)) \<and> colors_in_range k (fst (cols, st)) \<and>
        (\<forall>x \<in> set (snd (cols, st)). snapshot_valid ?adj x)"
    by (rule search_valid(1) [OF adj_ok_build_adj assms(1) _ _ _ _ assms(3)])
       (simp_all add: keys_def)
  then show "valid_coloring ?adj cols" "colors_in_range k cols"
    "\<forall>x \<in> set st. snapshot_valid ?adj x" by simp_all
  show "keys cols = ns" if b
    using search_frame(1) [OF assms(1) _ assms(3)] that by (simp add: keys_def)
qed

text \<open>
  Claim C1. Whenever \<^const>\<open>solve\<close> answers with \<^verbatim>\<open>ok = True\<close>, the returned colours give
  every vertex of the request a colour in \<open>[0, k)\<close>, and the two ends of every adjacency of the
  filtered graph, hence of every edge of the request that is not a self-loop and has both ends in
  the vertex list, carry different colours.
\<close>

theorem solve_valid_coloring:
  assumes "solve req = Inr resp" and "ok resp"
  shows "(\<forall>u \<in> set (nodes req).
            \<exists>c. map_of (colors resp) u = Some c \<and> 0 \<le> c \<and> c < k_colors req) \<and>
         (\<forall>u \<in> set (nodes req).
            \<forall>v \<in> set (neighbors (build_adj (nodes req) (edges req)) u).
              map_of (colors resp) u \<noteq> map_of (colors resp) v) \<and>
         (\<forall>e \<in> set (edges req).
            src e \<in> set (nodes req) \<and> dst e \<in> set (nodes req) \<and> src e \<noteq> dst e \<longrightarrow>
            map_of (colors resp) (src e) \<noteq> map_of (colors resp) (dst e))"
proof -
  let ?adj = "build_adj (nodes req) (edges req)"
  let ?k = "k_colors req"
  from assms have k: "2 \<le> ?k" "?k \<le> 5" and n: "nodes req \<noteq> []"
    by (auto simp: solve_def split: if_splits)
  from k n obtain ns b cols st where
    d: "distinct ns" and s: "set ns = set (nodes req)"
    and r: "backtrack ?adj ?k ns 0 ([], []) = Inr (b, cols, st)"
    and e: "solve req = Inr \<lparr>ok = b, colors = (if b then cols else []), steps = st,
                      message = (if b then msg_found
                                 else ''No existe coloreo con k colores.'')\<rparr>"
    by (rule solve_run)
  from e assms have b: b and c: "colors resp = cols" by auto
  note v = solve_run_valid [OF d s r]
  from v(4) b have kc: "keys cols = ns" by simp
  have total: "\<exists>c. map_of cols u = Some c \<and> (u, c) \<in> set cols" if "u \<in> set (nodes req)" for u
    using keys_lookup [OF kc] that s by simp
  have p1: "\<exists>c. map_of cols u = Some c \<and> 0 \<le> c \<and> c < ?k" if "u \<in> set (nodes req)" for u
    using total [OF that] v(2) by (auto simp: colors_in_range_def)
  have p2: "map_of cols u \<noteq> map_of cols w"
    if u: "u \<in> set (nodes req)" and w: "w \<in> set (neighbors ?adj u)" for u w
  proof -
    from total [OF u] obtain c where c: "map_of cols u = Some c" "(u, c) \<in> set cols" by blast
    with v(1) w have "map_of cols w \<noteq> Some c" by (auto simp: valid_coloring_def)
    with c show ?thesis by simp
  qed
  have p3: "map_of cols (src e) \<noteq> map_of cols (dst e)"
    if "e \<in> set (edges req)" "src e \<in> set (nodes req)" "dst e \<in> set (nodes req)"
      "src e \<noteq> dst e" for e
    using p2 [OF that(2) build_adj_has_edge [OF that]] .
  from p1 p2 p3 show ?thesis unfolding c by blast
qed

text \<open>
  Claim C10. \<^const>\<open>solve\<close> always returns a response, and every snapshot in its trace, whatever
  the action of the step, is a valid partial colouring of the filtered graph: no coloured vertex
  has a neighbour of the same colour.
\<close>

theorem snapshots_valid:
  "\<exists>resp. solve req = Inr resp \<and>
          (\<forall>s \<in> set (steps resp). snapshot_valid (build_adj (nodes req) (edges req)) s)"
proof (cases "2 \<le> k_colors req \<and> k_colors req \<le> 5 \<and> nodes req \<noteq> []")
  case False
  then show ?thesis by (auto simp: solve_def)
next
  case True
  then obtain ns b cols st where
    d: "distinct ns" and s: "set ns = set (nodes req)"
    and r: "backtrack (build_adj (nodes req) (edges req)) (k_colors req) ns 0 ([], [])
              = Inr (b, cols, st)"
    and e: "solve req = Inr \<lparr>ok = b, colors = (if b then cols else []), steps = st,
                      message = (if b then msg_found
                                 else ''No existe coloreo con k colores.'')\<rparr>"
    using solve_run [of req] by metis
  from solve_run_valid(3) [OF d s r] e show ?thesis by simp
qed

text \<open>
  Claim C9. A call of \<^const>\<open>backtrack\<close> at depth \<open>i\<close>, entered as the search enters it (the
  vertices in order are distinct and exactly the first \<open>i\<close> of them are coloured), that returns
  \<^verbatim>\<open>False\<close> leaves the colour dictionary exactly as it found it, entry order included.
\<close>

theorem backtrack_restores_assignment:
  "distinct ns \<Longrightarrow> keys cols = take i ns
   \<Longrightarrow> backtrack adj k ns i (cols, st) = Inr (False, cols', st') \<Longrightarrow> cols' = cols"
  using search_frame(1) [of ns "(cols, st)" i adj k False "(cols', st')"] by simp

text \<open>
  Claim C3, as the code has it. For a request within the accepted range whose filtered graph has
  no colouring with \<open>k\<close> colours, \<^const>\<open>solve\<close> returns \<^verbatim>\<open>ok = False\<close>, no colours, and a
  non-empty trace with at least one conflict step. More generally a call of \<^const>\<open>backtrack\<close>
  that returns \<^verbatim>\<open>False\<close> with \<open>k > 0\<close> has recorded, during the call, a conflict step for its
  own vertex or for a deeper one.
\<close>

theorem unsatisfiable_reports_failure:
  "(2 \<le> k_colors req \<and> k_colors req \<le> 5 \<and> nodes req \<noteq> [] \<and>
    \<not> k_colorable (build_adj (nodes req) (edges req)) (k_colors req) \<longrightarrow>
      (\<exists>resp. solve req = Inr resp \<and> \<not> ok resp \<and> colors resp = [] \<and> steps resp \<noteq> [] \<and>
              (\<exists>x \<in> set (steps resp). action x = ''conflict''))) \<and>
   (0 < k \<and> backtrack adj k ns i (cols, st) = Inr (False, cols', st') \<longrightarrow>
      (\<exists>x \<in> set (drop (length st) st'). action x = ''conflict'' \<and> node x \<in> set (drop i ns)))"
proof (intro conjI impI)
  assume a: "2 \<le> k_colors req \<and> k_colors req \<le> 5 \<and> nodes req \<noteq> [] \<and>
    \<not> k_colorable (build_adj (nodes req) (edges req)) (k_colors req)"
  let ?adj = "build_adj (nodes req) (edges req)"
  let ?k = "k_colors req"
  from a obtain ns b cols st where
    d: "distinct ns" and s: "set ns = set (nodes req)"
    and r: "backtrack ?adj ?k ns 0 ([], []) = Inr (b, cols, st)"
    and e: "solve req = Inr \<lparr>ok = b, colors = (if b then cols else []), steps = st,
                      message = (if b then msg_found
                                 else ''No existe coloreo con k colores.'')\<rparr>"
    using solve_run [of req] by metis
  note v = solve_run_valid [OF d s r]
  have nb: "\<not> b"
  proof
    assume b
    with v(4) have kc: "keys cols = ns" by simp
    let ?f = "\<lambda>u. get cols u (- 1)"
    have look: "\<exists>c. map_of cols u = Some c \<and> (u, c) \<in> set cols" if "u \<in> set (nodes req)" for u
      using keys_lookup [OF kc] that s by simp
    have "\<forall>u \<in> set (keys ?adj). 0 \<le> ?f u \<and> ?f u < ?k"
    proof
      fix u assume "u \<in> set (keys ?adj)"
      then have "u \<in> set (nodes req)" by simp
      from look [OF this] v(2) show "0 \<le> ?f u \<and> ?f u < ?k"
        by (auto simp: colors_in_range_def get_def)
    qed
    moreover have "\<forall>u \<in> set (keys ?adj). \<forall>w \<in> set (neighbors ?adj u). ?f u \<noteq> ?f w"
    proof (intro ballI)
      fix u w assume u: "u \<in> set (keys ?adj)" and w: "w \<in> set (neighbors ?adj u)"
      from u have un: "u \<in> set (nodes req)" by simp
      from w adj_ok_build_adj [of "nodes req" "edges req"] have "w \<in> set (keys ?adj)"
        unfolding adj_ok_def by blast
      then have wn: "w \<in> set (nodes req)" by simp
      from look [OF un] obtain c where c: "map_of cols u = Some c" "(u, c) \<in> set cols" by blast
      from look [OF wn] obtain c' where c': "map_of cols w = Some c'" by blast
      from v(1) c(2) w have "map_of cols w \<noteq> Some c" by (auto simp: valid_coloring_def)
      with c c' show "?f u \<noteq> ?f w" by (simp add: get_def)
    qed
    ultimately have "(\<forall>u \<in> set (keys ?adj). 0 \<le> ?f u \<and> ?f u < ?k) \<and>
        (\<forall>u \<in> set (keys ?adj). \<forall>w \<in> set (neighbors ?adj u). ?f u \<noteq> ?f w)"
      by (rule conjI)
    then have "k_colorable ?adj ?k" unfolding k_colorable_def
      by (rule exI [of _ "\<lambda>u. get cols u (- 1)"])
    with a show False by simp
  qed
  from a have "0 < ?k" by simp
  from search_conflict(1) [OF this] r nb
  have "\<exists>x \<in> set st. action x = ''conflict''" by fastforce
  with e nb show "\<exists>resp. solve req = Inr resp \<and> \<not> ok resp \<and> colors resp = [] \<and>
      steps resp \<noteq> [] \<and> (\<exists>x \<in> set (steps resp). action x = ''conflict'')"
    by auto
next
  assume a: "0 < k \<and> backtrack adj k ns i (cols, st) = Inr (False, cols', st')"
  then have r: "backtrack adj k ns i (cols, st) = Inr (False, cols', st')" and k: "0 < k"
    by simp_all
  from search_conflict(1) [OF k r]
  obtain x where x: "x \<in> set (drop (length st) st')" "action x = ''conflict''" by auto
  from search_steps(1) [OF r] obtain T where "st' = st @ T"
    and "\<forall>x \<in> set T. action x = ''done'' \<or> node x \<in> set (drop i ns)" by auto
  with x show "\<exists>x \<in> set (drop (length st) st').
       action x = ''conflict'' \<and> node x \<in> set (drop i ns)" by auto
qed

theorem solve_valid_coloring_witness:
  "solve \<lparr>nodes = [''A'', ''B''], edges = [\<lparr>src = ''A'', dst = ''B''\<rparr>], k_colors = 2,
          order = None\<rparr>
     = Inr \<lparr>ok = True, colors = [(''A'', 0), (''B'', 1)],
            steps = [record_step ''try'' ''A'' (Some 0) [],
                     record_step ''assign'' ''A'' (Some 0) [(''A'', 0)],
                     record_step ''try'' ''B'' (Some 0) [(''A'', 0)],
                     record_step ''conflict'' ''B'' (Some 0) [(''A'', 0)],
                     record_step ''try'' ''B'' (Some 1) [(''A'', 0)],
                     record_step ''assign'' ''B'' (Some 1) [(''A'', 0), (''B'', 1)],
                     record_step ''done'' '''' None [(''A'', 0), (''B'', 1)]],
            message = msg_found\<rparr> \<and>
   (\<exists>c. map_of [(''A'', 0), (''B'', 1)] ''A'' = Some c \<and> 0 \<le> c \<and> c < (2::int)) \<and>
   (\<exists>c. map_of [(''A'', 0), (''B'', 1)] ''B'' = Some c \<and> 0 \<le> c \<and> c < (2::int)) \<and>
   map_of [(''A'', 0::int), (''B'', 1)] ''A'' \<noteq> map_of [(''A'', 0), (''B'', 1)] ''B''"
proof -
  define req where "req = \<lparr>nodes = [''A'', ''B''], edges = [\<lparr>src = ''A'', dst = ''B''\<rparr>],
                            k_colors = 2, order = None\<rparr>"
  define resp where "resp = \<lparr>ok = True, colors = [(''A'', 0), (''B'', 1)],
            steps = [record_step ''try'' ''A'' (Some 0) [],
                     record_step ''assign'' ''A'' (Some 0) [(''A'', 0)],
                     record_step ''try'' ''B'' (Some 0) [(''A'', 0)],
                     record_step ''conflict'' ''B'' (Some 0) [(''A'', 0)],
                     record_step ''try'' ''B'' (Some 1) [(''A'', 0)],
                     record_step ''assign'' ''B'' (Some 1) [(''A'', 0), (''B'', 1)],
                     record_step ''done'' '''' None [(''A'', 0), (''B'', 1)]],
            message = msg_found\<rparr>"
  have e: "solve req = Inr resp" by (simp add: req_def resp_def solve_defs)
  have o: "ok resp" by (simp add: resp_def)
  note t = solve_valid_coloring [OF e o]
  from t have p1: "\<forall>u \<in> set (nodes req).
      \<exists>c. map_of (colors resp) u = Some c \<and> 0 \<le> c \<and> c < k_colors req"
    by (rule conjunct1)
  from t have p3: "\<forall>e \<in> set (edges req).
            src e \<in> set (nodes req) \<and> dst e \<in> set (nodes req) \<and> src e \<noteq> dst e \<longrightarrow>
            map_of (colors resp) (src e) \<noteq> map_of (colors resp) (dst e)"
    by (rule conjunct2 [THEN conjunct2])
  have q1: "(\<exists>c. map_of [(''A'', 0), (''B'', 1)] ''A'' = Some c \<and> 0 \<le> c \<and> c < (2::int)) \<and>
      (\<exists>c. map_of [(''A'', 0), (''B'', 1)] ''B'' = Some c \<and> 0 \<le> c \<and> c < (2::int))"
    using p1 by (simp add: req_def resp_def)
  have q3: "map_of [(''A'', 0::int), (''B'', 1)] ''A'' \<noteq> map_of [(''A'', 0), (''B'', 1)] ''B''"
    using p3 by (simp add: req_def resp_def)
  from e q1 q3 show ?thesis unfolding req_def resp_def by blast
qed

theorem snapshots_valid_witness:
  "snapshot_valid (build_adj [''A'', ''B''] [\<lparr>src = ''A'', dst = ''B''\<rparr>])
     (record_step ''done'' '''' None [(''A'', 0), (''B'', 1)]) \<and>
   map_of [(''A'', 0), (''B'', 1)] ''B'' \<noteq> Some (0::int)"
proof -
  define req where "req = \<lparr>nodes = [''A'', ''B''], edges = [\<lparr>src = ''A'', dst = ''B''\<rparr>],
                            k_colors = 2, order = None\<rparr>"
  define resp where "resp = \<lparr>ok = True, colors = [(''A'', 0), (''B'', 1)],
            steps = [record_step ''try'' ''A'' (Some 0) [],
                     record_step ''assign'' ''A'' (Some 0) [(''A'', 0)],
                     record_step ''try'' ''B'' (Some 0) [(''A'', 0)],
                     record_step ''conflict'' ''B'' (Some 0) [(''A'', 0)],
                     record_step ''try'' ''B'' (Some 1) [(''A'', 0)],
                     record_step ''assign'' ''B'' (Some 1) [(''A'', 0), (''B'', 1)],
                     record_step ''done'' '''' None [(''A'', 0), (''B'', 1)]],
            message = msg_found\<rparr>"
  let ?adj = "build_adj [''A'', ''B''] [\<lparr>src = ''A'', dst = ''B''\<rparr>]"
  have e: "solve req = Inr resp" by (simp add: req_def resp_def solve_defs)
  from snapshots_valid [of req] e
  have "\<forall>s \<in> set (steps resp). snapshot_valid (build_adj (nodes req) (edges req)) s" by simp
  then have s: "snapshot_valid ?adj (record_step ''done'' '''' None [(''A'', 0), (''B'', 1)])"
    by (simp add: req_def resp_def)
  then have "valid_coloring ?adj [(''A'', 0), (''B'', 1)]" by simp
  then have "\<forall>v \<in> set (neighbors ?adj ''A''). map_of [(''A'', 0), (''B'', 1)] v \<noteq> Some (0::int)"
    unfolding valid_coloring_def by simp
  then have "map_of [(''A'', 0), (''B'', 1)] ''B'' \<noteq> Some (0::int)"
    by (simp add: build_defs neighbors_def get_def)
  with s show ?thesis by (intro conjI)
qed

theorem backtrack_restores_assignment_witness:
  "distinct [''A'', ''B'', ''C''] \<and> keys [(''A'', 0::int)] = take 1 [''A'', ''B'', ''C''] \<and>
   backtrack [(''A'', [''C'']), (''B'', [''C'']), (''C'', [''A'', ''B''])] 1
     [''A'', ''B'', ''C''] 1 ([(''A'', 0)], [])
     = Inr (False, [(''A'', 0)],
            [record_step ''try'' ''B'' (Some 0) [(''A'', 0)],
             record_step ''assign'' ''B'' (Some 0) [(''A'', 0), (''B'', 0)],
             record_step ''try'' ''C'' (Some 0) [(''A'', 0), (''B'', 0)],
             record_step ''conflict'' ''C'' (Some 0) [(''A'', 0), (''B'', 0)],
             record_step ''backtrack'' ''B'' (Some 0) [(''A'', 0), (''B'', 0)]])"
proof -
  have d: "distinct [''A'', ''B'', ''C'']" by simp
  have k: "keys [(''A'', 0::int)] = take 1 [''A'', ''B'', ''C'']" by (simp add: keys_def)
  obtain cols' st' where r: "backtrack [(''A'', [''C'']), (''B'', [''C'']), (''C'', [''A'', ''B''])] 1
     [''A'', ''B'', ''C''] 1 ([(''A'', 0)], []) = Inr (False, cols', st')"
    and s: "st' = [record_step ''try'' ''B'' (Some 0) [(''A'', 0)],
             record_step ''assign'' ''B'' (Some 0) [(''A'', 0), (''B'', 0)],
             record_step ''try'' ''C'' (Some 0) [(''A'', 0), (''B'', 0)],
             record_step ''conflict'' ''C'' (Some 0) [(''A'', 0), (''B'', 0)],
             record_step ''backtrack'' ''B'' (Some 0) [(''A'', 0), (''B'', 0)]]"
    by (simp add: search_defs)
  from backtrack_restores_assignment [OF d k r] have "cols' = [(''A'', 0)]" .
  with d k r s show ?thesis by simp
qed

lemma k3_adj:
  "build_adj [''A'', ''B'', ''C'']
     [\<lparr>src = ''A'', dst = ''B''\<rparr>, \<lparr>src = ''B'', dst = ''C''\<rparr>, \<lparr>src = ''C'', dst = ''A''\<rparr>]
   = [(''A'', [''B'', ''C'']), (''B'', [''A'', ''C'']), (''C'', [''B'', ''A''])]"
  by (simp add: build_defs)

lemma k3_run:
  "backtrack [(''A'', [''B'', ''C'']), (''B'', [''A'', ''C'']), (''C'', [''B'', ''A''])] 2
     [''A'', ''B'', ''C''] 0 ([], []) = Inr (False, [], k3_trace)"
  by (simp add: search_defs k3_trace_def)

lemma k3_not_colorable:
  "\<not> k_colorable [(''A'', [''B'', ''C'']), (''B'', [''A'', ''C'']), (''C'', [''B'', ''A''])] 2"
proof
  assume "k_colorable [(''A'', [''B'', ''C'']), (''B'', [''A'', ''C'']), (''C'', [''B'', ''A''])] 2"
  then obtain f :: "string \<Rightarrow> int" where
    "0 \<le> f ''A''" "f ''A'' < 2" "0 \<le> f ''B''" "f ''B'' < 2" "0 \<le> f ''C''" "f ''C'' < 2"
    "f ''A'' \<noteq> f ''B''" "f ''A'' \<noteq> f ''C''" "f ''B'' \<noteq> f ''C''"
    by (auto simp: k_colorable_def keys_def neighbors_def get_def)
  then show False by arith
qed

theorem unsatisfiable_reports_failure_witness:
  "\<not> k_colorable (build_adj [''A'', ''B'', ''C'']
        [\<lparr>src = ''A'', dst = ''B''\<rparr>, \<lparr>src = ''B'', dst = ''C''\<rparr>, \<lparr>src = ''C'', dst = ''A''\<rparr>]) 2 \<and>
   (\<exists>resp. solve \<lparr>nodes = [''A'', ''B'', ''C''],
                   edges = [\<lparr>src = ''A'', dst = ''B''\<rparr>, \<lparr>src = ''B'', dst = ''C''\<rparr>,
                            \<lparr>src = ''C'', dst = ''A''\<rparr>],
                   k_colors = 2, order = None\<rparr> = Inr resp \<and>
           \<not> ok resp \<and> colors resp = [] \<and> steps resp \<noteq> [] \<and>
           (\<exists>x \<in> set (steps resp). action x = ''conflict'')) \<and>
   backtrack [(''A'', [''B'', ''C'']), (''B'', [''A'', ''C'']), (''C'', [''B'', ''A''])] 2
     [''A'', ''B'', ''C''] 0 ([], []) = Inr (False, [], k3_trace) \<and>
   (\<exists>x \<in> set (drop (length ([] :: Step list)) k3_trace).
      action x = ''conflict'' \<and> node x \<in> set (drop 0 [''A'', ''B'', ''C'']))"
proof -
  define req where "req = \<lparr>nodes = [''A'', ''B'', ''C''],
                   edges = [\<lparr>src = ''A'', dst = ''B''\<rparr>, \<lparr>src = ''B'', dst = ''C''\<rparr>,
                            \<lparr>src = ''C'', dst = ''A''\<rparr>],
                   k_colors = 2, order = None\<rparr>"
  have nk: "\<not> k_colorable (build_adj (nodes req) (edges req)) (k_colors req)"
    using k3_not_colorable by (simp add: req_def k3_adj)
  have h: "2 \<le> k_colors req \<and> k_colors req \<le> 5 \<and> nodes req \<noteq> [] \<and>
           \<not> k_colorable (build_adj (nodes req) (edges req)) (k_colors req)"
    using nk by (simp add: req_def)
  have h2: "(0::int) < 2 \<and>
     backtrack [(''A'', [''B'', ''C'']), (''B'', [''A'', ''C'']), (''C'', [''B'', ''A''])] 2
       [''A'', ''B'', ''C''] 0 ([], []) = Inr (False, [], k3_trace)"
    using k3_run by simp
  note t = unsatisfiable_reports_failure [of req 2
      "[(''A'', [''B'', ''C'']), (''B'', [''A'', ''C'']), (''C'', [''B'', ''A''])]"
      "[''A'', ''B'', ''C'']" 0 "[]" "[]" "[]" k3_trace]
  from t [THEN conjunct1, rule_format, OF h]
  have c1: "\<exists>resp. solve req = Inr resp \<and> \<not> ok resp \<and> colors resp = [] \<and> steps resp \<noteq> [] \<and>
              (\<exists>x \<in> set (steps resp). action x = ''conflict'')" .
  from t [THEN conjunct2, rule_format, OF h2]
  have c2: "\<exists>x \<in> set (drop (length ([] :: Step list)) k3_trace).
      action x = ''conflict'' \<and> node x \<in> set (drop 0 [''A'', ''B'', ''C''])" .
  from nk have nk': "\<not> k_colorable (build_adj [''A'', ''B'', ''C'']
        [\<lparr>src = ''A'', dst = ''B''\<rparr>, \<lparr>src = ''B'', dst = ''C''\<rparr>, \<lparr>src = ''C'', dst = ''A''\<rparr>]) 2"
    by (simp add: req_def)
  from nk' c1 k3_run c2 show ?thesis unfolding req_def by (intro conjI)
qed

text \<open>
  Claim C3 as stated asks for a conflict step for every exhausted vertex. On the triangle with
  two colours the call at depth 0 returns \<^verbatim>\<open>False\<close>, so its vertex \<^verbatim>\<open>A\<close> is exhausted, yet no
  conflict step of the trace names \<^verbatim>\<open>A\<close>: nothing is coloured when the first vertex is tried.
\<close>

theorem exhausted_vertex_without_conflict:
  "solve \<lparr>nodes = [''A'', ''B'', ''C''],
          edges = [\<lparr>src = ''A'', dst = ''B''\<rparr>, \<lparr>src = ''B'', dst = ''C''\<rparr>,
                   \<lparr>src = ''C'', dst = ''A''\<rparr>],
          k_colors = 2, order = None\<rparr>
     = Inr \<lparr>ok = False, colors = [], steps = k3_trace,
            message = ''No existe coloreo con k colores.''\<rparr> \<and>
   order_nodes (build_adj [''A'', ''B'', ''C'']
        [\<lparr>src = ''A'', dst = ''B''\<rparr>, \<lparr>src = ''B'', dst = ''C''\<rparr>, \<lparr>src = ''C'', dst = ''A''\<rparr>])
      ''degree'' = Inr [''A'', ''B'', ''C''] \<and>
   backtrack (build_adj [''A'', ''B'', ''C'']
        [\<lparr>src = ''A'', dst = ''B''\<rparr>, \<lparr>src = ''B'', dst = ''C''\<rparr>, \<lparr>src = ''C'', dst = ''A''\<rparr>])
      2 [''A'', ''B'', ''C''] 0 ([], []) = Inr (False, [], k3_trace) \<and>
   conflict_nodes k3_trace = [''B'', ''C'', ''C'', ''C'', ''C'', ''B''] \<and>
   ''A'' \<notin> set (conflict_nodes k3_trace)"
proof -
  have o: "order_nodes [(''A'', [''B'', ''C'']), (''B'', [''A'', ''C'']), (''C'', [''B'', ''A''])]
      ''degree'' = Inr [''A'', ''B'', ''C'']"
    by (simp add: order_nodes_def sorted_reverse_def degree_key_def getitem_def keys_def)
  have s: "solve \<lparr>nodes = [''A'', ''B'', ''C''],
          edges = [\<lparr>src = ''A'', dst = ''B''\<rparr>, \<lparr>src = ''B'', dst = ''C''\<rparr>,
                   \<lparr>src = ''C'', dst = ''A''\<rparr>],
          k_colors = 2, order = None\<rparr>
     = Inr \<lparr>ok = False, colors = [], steps = k3_trace,
            message = ''No existe coloreo con k colores.''\<rparr>"
    by (simp add: solve_def color_graph_backtracking_def k3_adj o k3_run)
  have c: "conflict_nodes k3_trace = [''B'', ''C'', ''C'', ''C'', ''C'', ''B'']"
    by (simp add: conflict_nodes_def k3_trace_def record_step_def)
  have n: "''A'' \<notin> set (conflict_nodes k3_trace)" unfolding c by simp
  from s o k3_run c n show ?thesis unfolding k3_adj by (intro conjI)
qed

lemma search_extends:
  "distinct ns \<Longrightarrow> keys (fst s) = take i ns \<Longrightarrow> backtrack adj k ns i s = Inr (True, s')
   \<Longrightarrow> \<exists>ext. fst s' = fst s @ ext"
  "distinct ns \<Longrightarrow> i < length ns \<Longrightarrow> u = ns ! i \<Longrightarrow> keys (fst s) = take i ns
   \<Longrightarrow> color_loop adj k ns i u cs s = Inr (True, s')
   \<Longrightarrow> \<exists>c ext. c \<in> set cs \<and> compatible u c (fst s) adj = Inr True \<and>
               fst s' = fst s @ (u, c) # ext"
proof (induction adj k ns i s and adj k ns i u cs s arbitrary: s' and s' rule: search_induct)
  case (backtrack adj k ns i cols st)
  from backtrack.prems(3) show ?case
  proof (cases rule: backtrack_cases)
    case finish
    then show ?thesis by simp
  next
    case loop
    from backtrack.IH [OF loop(1) backtrack.prems(1) loop(1) refl backtrack.prems(2) loop(2)]
    show ?thesis by auto
  qed
next
  case (Nil adj k ns i u cols st)
  then show ?case by (simp add: color_loop.simps)
next
  case (Cons adj k ns i u c cs cols st)
  have next_keys: "keys (setitem cols u c) = take (i + 1) ns"
    using Cons.prems by (simp add: keys_setitem_next)
  have fresh: "u \<notin> set (keys cols)" using Cons.prems by (simp add: nth_notin_take)
  then have upd: "setitem cols u c = cols @ [(u, c)]"
    by (simp add: setitem_def keys_def update_fresh)
  from Cons.prems(5) show ?case
  proof (cases rule: color_loop_Cons_cases)
    case conflict
    from Cons.IH(3) [OF conflict(1) Cons.prems(1,2,3) _ conflict(2)] Cons.prems(4)
    show ?thesis by auto
  next
    case success
    from Cons.IH(1) [OF success(1) Cons.prems(1) _ success(3)] next_keys
    obtain ext where "fst s' = setitem cols u c @ ext" by auto
    with upd success(1) show ?thesis by auto
  next
    case (retry cols2 st3 cols3)
    from search_frame(1) [OF Cons.prems(1) _ retry(2)] next_keys
    have "cols2 = setitem cols u c" by simp
    with retry(3) fresh have "cols3 = cols" by (simp add: delitem_setitem)
    with Cons.IH(2) [OF retry(1,2,3) Cons.prems(1,2,3) _ retry(4)] Cons.prems(4)
    show ?thesis by auto
  qed
qed

lemma own_steps_append [simp]: "own_steps u (xs @ ys) = own_steps u xs @ own_steps u ys"
  by (simp add: own_steps_def)

lemma own_steps_record [simp]:
  "a \<noteq> ''done'' \<Longrightarrow> own_steps u (record_step a u c cols # xs) = record_step a u c cols # own_steps u xs"
  by (simp add: own_steps_def record_step_def)

lemma own_steps_Nil [simp]: "own_steps u [] = []"
  by (simp add: own_steps_def)

lemma own_steps_deeper:
  assumes "distinct ns" "i < length ns"
    and "\<forall>x \<in> set T. action x = ''done'' \<or> node x \<in> set (drop (i + 1) ns)"
  shows "own_steps (ns ! i) T = []"
proof -
  have "ns ! i \<notin> set (drop (Suc i) ns)"
    using assms(1,2) by (metis Cons_nth_drop_Suc distinct.simps(2) distinct_drop)
  with assms(3) show ?thesis by (auto simp: own_steps_def filter_empty_conv)
qed

lemma map_of_fresh_append:
  "u \<notin> set (keys cols) \<Longrightarrow> map_of (cols @ (u, c) # ext) u = Some c"
  by (induction cols) (auto simp: keys_def)

lemma loop_trace:
  assumes d: "distinct ns" and i: "i < length ns" and u: "u = ns ! i"
    and kc: "keys cols = take i ns"
  shows "distinct cs \<Longrightarrow> color_loop adj k ns i u cs (cols, st) = Inr (b, cols', st')
         \<Longrightarrow> own_steps u (drop (length st) st') = own_trace adj u cols cs b (get cols' u (- 1))"
proof (induction cs arbitrary: st)
  case Nil
  then show ?case by (simp add: color_loop.simps own_trace_def)
next
  case (Cons c cs)
  have fresh: "u \<notin> set (keys cols)" using d i u kc by (simp add: nth_notin_take)
  have next_keys: "keys (setitem cols u c) = take (i + 1) ns"
    using d i u kc by (simp add: keys_setitem_next)
  have winner: "get cols' u (- 1) \<in> set cs \<and> get cols' u (- 1) \<noteq> c"
    if "color_loop adj k ns i u cs (cols, st2) = Inr (True, cols', st')" for st2
  proof -
    from search_extends(2) [OF d i u _ that] kc
    obtain w ext where w: "w \<in> set cs" "cols' = cols @ (u, w) # ext" by auto
    have "map_of cols' u = Some w" unfolding w(2) by (rule map_of_fresh_append [OF fresh])
    with w Cons.prems(1) show ?thesis by (auto simp: get_def)
  qed
  from Cons.prems(2) show ?case
  proof (cases rule: color_loop_Cons_cases)
    case conflict
    let ?st1 = "st @ [record_step ''try'' u (Some c) cols,
                     record_step ''conflict'' u (Some c) cols]"
    from search_steps(2) [OF i u conflict(2)] obtain T where T: "st' = ?st1 @ T" by auto
    from T have dr: "drop (length ?st1) st' = T" by simp
    from Cons.IH [OF _ conflict(2)] Cons.prems(1)
    have ih: "own_steps u T = own_trace adj u cols cs b (get cols' u (- 1))"
      unfolding dr by simp
    from T have ds: "drop (length st) st' = [record_step ''try'' u (Some c) cols,
                     record_step ''conflict'' u (Some c) cols] @ T" by simp
    have a: "attempt_steps adj u cols c = [record_step ''try'' u (Some c) cols,
                     record_step ''conflict'' u (Some c) cols]"
      using conflict(1) by (simp add: attempt_steps_def)
    show ?thesis
    proof (cases b)
      case True
      with conflict(2) have "color_loop adj k ns i u cs (cols, ?st1) = Inr (True, cols', st')"
        by simp
      from winner [OF this] have "get cols' u (- 1) \<noteq> c" by simp
      with ih a True show ?thesis unfolding ds by (simp add: own_trace_def)
    next
      case False
      with ih a show ?thesis unfolding ds by (simp add: own_trace_def)
    qed
  next
    case success
    let ?st1 = "st @ [record_step ''try'' u (Some c) cols,
                     record_step ''assign'' u (Some c) (setitem cols u c)]"
    from search_steps(1) [OF success(3)] obtain T where T: "st' = ?st1 @ T"
      and loc: "\<forall>x \<in> set T. action x = ''done'' \<or> node x \<in> set (drop (i + 1) ns)" by auto
    from own_steps_deeper [OF d i loc] u have o: "own_steps u T = []" by simp
    from search_extends(1) [OF d _ success(3)] next_keys
    obtain ext where "cols' = setitem cols u c @ ext" by auto
    with fresh have e: "cols' = cols @ (u, c) # ext"
      by (simp add: setitem_def keys_def update_fresh)
    have "map_of cols' u = Some c" unfolding e by (rule map_of_fresh_append [OF fresh])
    then have "get cols' u (- 1) = c" by (simp add: get_def)
    moreover from T have "drop (length st) st' = [record_step ''try'' u (Some c) cols,
                     record_step ''assign'' u (Some c) (setitem cols u c)] @ T" by simp
    ultimately show ?thesis using o success(2) by (simp add: own_trace_def)
  next
    case (retry cols2 st3 cols3)
    let ?st1 = "st @ [record_step ''try'' u (Some c) cols,
                     record_step ''assign'' u (Some c) (setitem cols u c)]"
    from search_steps(1) [OF retry(2)] obtain T1 where T1: "st3 = ?st1 @ T1"
      and loc: "\<forall>x \<in> set T1. action x = ''done'' \<or> node x \<in> set (drop (i + 1) ns)" by auto
    from own_steps_deeper [OF d i loc] u have o: "own_steps u T1 = []" by simp
    from search_frame(1) [OF d _ retry(2)] next_keys
    have c2: "cols2 = setitem cols u c" by simp
    with retry(3) fresh have c3: "cols3 = cols" by (simp add: delitem_setitem)
    let ?st4 = "st3 @ [record_step ''backtrack'' u (Some c) cols2]"
    from retry(4) c3 have rest: "color_loop adj k ns i u cs (cols, ?st4) = Inr (b, cols', st')"
      by simp
    from search_steps(2) [OF i u rest] obtain T2 where T2: "st' = ?st4 @ T2" by auto
    from T2 have dr: "drop (length ?st4) st' = T2" by simp
    from Cons.IH [OF _ rest] Cons.prems(1)
    have ih: "own_steps u T2 = own_trace adj u cols cs b (get cols' u (- 1))"
      unfolding dr by simp
    from T1 T2 c2 have ds: "drop (length st) st' =
        [record_step ''try'' u (Some c) cols,
         record_step ''assign'' u (Some c) (setitem cols u c)] @ T1 @
        [record_step ''backtrack'' u (Some c) (setitem cols u c)] @ T2" by simp
    have a: "attempt_steps adj u cols c = [record_step ''try'' u (Some c) cols,
            record_step ''assign'' u (Some c) (setitem cols u c),
            record_step ''backtrack'' u (Some c) (setitem cols u c)]"
      using retry(1) by (simp add: attempt_steps_def)
    show ?thesis
    proof (cases b)
      case True
      with rest have "color_loop adj k ns i u cs (cols, ?st4) = Inr (True, cols', st')"
        by simp
      from winner [OF this] have "get cols' u (- 1) \<noteq> c" by simp
      with ih a o True show ?thesis unfolding ds by (simp add: own_trace_def)
    next
      case False
      with ih a o show ?thesis unfolding ds by (simp add: own_trace_def)
    qed
  qed
qed

lemma takeWhile_py_range:
  assumes "0 \<le> w" "w < k"
  shows "takeWhile (\<lambda>c. c \<noteq> w) (py_range k) = py_range w"
proof -
  have "[0..k - 1] = [0..w - 1] @ w # [w + 1..k - 1]"
    using assms by (intro upto_split3) simp_all
  moreover have "takeWhile (\<lambda>c. c \<noteq> w) ([0..w - 1] @ w # [w + 1..k - 1]) = [0..w - 1]"
    by (subst takeWhile_append2) auto
  ultimately show ?thesis by (simp only: py_range_def)
qed

text \<open>
  Claim C4. In a call of \<^const>\<open>backtrack\<close> for the vertex \<open>u\<close> at depth \<open>i\<close>, the steps that
  name \<open>u\<close> are, colour by colour in the order \<open>0, 1, \<dots>\<close>: a try step with the dictionary as
  it was before the assignment, then either a conflict step with the same snapshot, or an assign
  step and, once the recursion below has failed, a backtrack step whose snapshots both show
  \<open>u\<close> with that colour; the next try step again shows the dictionary without \<open>u\<close>. A failing
  call runs through all of \<open>0, \<dots>, k - 1\<close>; a succeeding call stops after the try and assign
  steps of the colour it keeps.
\<close>

theorem color_order_and_trace:
  "distinct ns \<Longrightarrow> i < length ns \<Longrightarrow> keys cols = take i ns
   \<Longrightarrow> backtrack adj k ns i (cols, st) = Inr (b, cols', st')
   \<Longrightarrow> (let u = ns ! i; w = get cols' u (- 1) in
        take (length st) st' = st \<and>
        own_steps u (drop (length st) st') =
          (if b then concat (map (attempt_steps adj u cols) (py_range w)) @
                     [record_step ''try'' u (Some w) cols,
                      record_step ''assign'' u (Some w) (setitem cols u w)]
           else concat (map (attempt_steps adj u cols) (py_range k))) \<and>
        (b \<longrightarrow> 0 \<le> w \<and> w < k \<and> compatible u w cols adj = Inr True))"
proof -
  assume d: "distinct ns" and i: "i < length ns" and kc: "keys cols = take i ns"
    and r: "backtrack adj k ns i (cols, st) = Inr (b, cols', st')"
  let ?u = "ns ! i"
  let ?w = "get cols' ?u (- 1)"
  from r i have l: "color_loop adj k ns i ?u (py_range k) (cols, st) = Inr (b, cols', st')"
    by (cases rule: backtrack_cases) simp_all
  have dc: "distinct (py_range k)" by (simp add: py_range_def)
  from loop_trace [OF d i refl kc dc l]
  have t: "own_steps ?u (drop (length st) st') = own_trace adj ?u cols (py_range k) b ?w" .
  from search_steps(1) [OF r] have p: "take (length st) st' = st" by auto
  have fresh: "?u \<notin> set (keys cols)" using d i kc by (simp add: nth_notin_take)
  have w: "0 \<le> ?w \<and> ?w < k \<and> compatible ?u ?w cols adj = Inr True" if b
  proof -
    from that l have "color_loop adj k ns i ?u (py_range k) (cols, st) = Inr (True, cols', st')"
      by simp
    from search_extends(2) [OF d i refl _ this] kc
    obtain c ext where c: "c \<in> set (py_range k)" "compatible ?u c cols adj = Inr True"
      "cols' = cols @ (?u, c) # ext" by auto
    have "map_of cols' ?u = Some c" unfolding c(3) by (rule map_of_fresh_append [OF fresh])
    then have "?w = c" by (simp add: get_def)
    with c show ?thesis by auto
  qed
  have "own_steps ?u (drop (length st) st') =
          (if b then concat (map (attempt_steps adj ?u cols) (py_range ?w)) @
                     [record_step ''try'' ?u (Some ?w) cols,
                      record_step ''assign'' ?u (Some ?w) (setitem cols ?u ?w)]
           else concat (map (attempt_steps adj ?u cols) (py_range k)))"
  proof (cases b)
    case True
    with w have "takeWhile (\<lambda>c. c \<noteq> ?w) (py_range k) = py_range ?w"
      by (intro takeWhile_py_range) simp_all
    with t True show ?thesis by (simp add: own_trace_def)
  next
    case False
    with t show ?thesis by (simp add: own_trace_def)
  qed
  with p w show ?thesis by (simp add: Let_def)
qed

theorem color_order_and_trace_witness:
  "distinct [''A'', ''B''] \<and> keys [(''A'', 0::int)] = take 1 [''A'', ''B''] \<and>
   backtrack [(''A'', [''B'']), (''B'', [''A''])] 2 [''A'', ''B''] 1 ([(''A'', 0)], [])
     = Inr (True, [(''A'', 0), (''B'', 1)],
            [record_step ''try'' ''B'' (Some 0) [(''A'', 0)],
             record_step ''conflict'' ''B'' (Some 0) [(''A'', 0)],
             record_step ''try'' ''B'' (Some 1) [(''A'', 0)],
             record_step ''assign'' ''B'' (Some 1) [(''A'', 0), (''B'', 1)],
             record_step ''done'' '''' None [(''A'', 0), (''B'', 1)]]) \<and>
   own_steps ''B''
     [record_step ''try'' ''B'' (Some 0) [(''A'', 0)],
      record_step ''conflict'' ''B'' (Some 0) [(''A'', 0)],
      record_step ''try'' ''B'' (Some 1) [(''A'', 0)],
      record_step ''assign'' ''B'' (Some 1) [(''A'', 0), (''B'', 1)],
      record_step ''done'' '''' None [(''A'', 0), (''B'', 1)]]
     = attempt_steps [(''A'', [''B'']), (''B'', [''A''])] ''B'' [(''A'', 0)] 0 @
       [record_step ''try'' ''B'' (Some 1) [(''A'', 0)],
        record_step ''assign'' ''B'' (Some 1) [(''A'', 0), (''B'', 1)]] \<and>
   attempt_steps [(''A'', [''B'']), (''B'', [''A''])] ''B'' [(''A'', 0)] 0
     = [record_step ''try'' ''B'' (Some 0) [(''A'', 0)],
        record_step ''conflict'' ''B'' (Some 0) [(''A'', 0)]]"
proof -
  define T where "T = [record_step ''try'' ''B'' (Some 0) [(''A'', 0)],
             record_step ''conflict'' ''B'' (Some 0) [(''A'', 0)],
             record_step ''try'' ''B'' (Some 1) [(''A'', 0)],
             record_step ''assign'' ''B'' (Some 1) [(''A'', 0), (''B'', 1)],
             record_step ''done'' '''' None [(''A'', 0), (''B'', 1)]]"
  have d: "distinct [''A'', ''B'']" by simp
  have i: "1 < length [''A'', ''B'']" by simp
  have k: "keys [(''A'', 0::int)] = take 1 [''A'', ''B'']" by (simp add: keys_def)
  have r: "backtrack [(''A'', [''B'']), (''B'', [''A''])] 2 [''A'', ''B''] 1 ([(''A'', 0)], [])
     = Inr (True, [(''A'', 0), (''B'', 1)], T)"
    by (simp add: search_defs T_def)
  have a: "attempt_steps [(''A'', [''B'']), (''B'', [''A''])] ''B'' [(''A'', 0)] 0
     = [record_step ''try'' ''B'' (Some 0) [(''A'', 0)],
        record_step ''conflict'' ''B'' (Some 0) [(''A'', 0)]]"
    by (simp add: attempt_steps_def compatible_def getitem_def get_def)
  from color_order_and_trace [OF d i k r]
  have "own_steps ''B'' T
     = attempt_steps [(''A'', [''B'']), (''B'', [''A''])] ''B'' [(''A'', 0)] 0 @
       [record_step ''try'' ''B'' (Some 1) [(''A'', 0)],
        record_step ''assign'' ''B'' (Some 1) [(''A'', 0), (''B'', 1)]]"
    by (simp add: Let_def get_def py_range_def upto.simps setitem_def)
  with d k r a show ?thesis unfolding T_def by (intro conjI)
qed

declare backtrack_ref.simps [simp del] color_loop_ref.simps [simp del]

lemma unchanged_refl [simp]: "unchanged a s s"
  by (simp add: unchanged_def)

lemma unchanged_trans:
  assumes "unchanged a s s'" and "unchanged a s' s''"
  shows "unchanged a s s''"
proof -
  from assms have l: "length (fst s) \<le> length (fst s')" "length (fst s') \<le> length (fst s'')"
    and t1: "take (length (snd s)) (snd s') = snd s"
    and t2: "take (length (snd s')) (snd s'') = snd s'"
    by (simp_all add: unchanged_def)
  have "length (snd s) \<le> length (snd s')"
    using arg_cong [OF t1, of length] by (simp add: min_def split: if_splits)
  then have "take (length (snd s)) (snd s'') = take (length (snd s)) (take (length (snd s')) (snd s''))"
    by (simp add: min.absorb1)
  with t1 t2 have "take (length (snd s)) (snd s'') = snd s" by simp
  moreover have "fst s'' ! p = fst s ! p" if "p < length (fst s)" "p \<noteq> a" for p
    using assms that l by (simp add: unchanged_def)
  ultimately show ?thesis using l by (simp add: unchanged_def)
qed

lemma deref_cong:
  "(\<And>p. ref_partial x = Some p \<Longrightarrow> h' ! p = h ! p) \<Longrightarrow> deref h' x = deref h x"
  by (cases "ref_partial x") (simp_all add: deref_def)

lemma map_deref_cong:
  assumes "store_ok a (h, st)" and "\<And>p. p < length h \<Longrightarrow> p \<noteq> a \<Longrightarrow> h' ! p = h ! p"
  shows "map (deref h') st = map (deref h) st"
  using assms by (auto simp: store_ok_def intro!: deref_cong)

lemma append_step_props:
  assumes "store_ok a s"
  shows "store_ok a (append_step act u c a s)"
    and "abs_state a (append_step act u c a s)
           = (fst (abs_state a s), snd (abs_state a s) @ [record_step act u c (fst (abs_state a s))])"
    and "unchanged a s (append_step act u c a s)"
proof -
  obtain h st where s: "s = (h, st)" by (cases s)
  let ?h = "h @ [h ! a]"
  let ?x = "\<lparr>ref_action = act, ref_node = u, ref_color = c, ref_partial = Some (length h)\<rparr>"
  have e: "append_step act u c a (h, st) = (?h, st @ [?x])"
    by (simp add: append_step_def dict_copy_def)
  from assms s have a: "a < length h" by (simp add: store_ok_def)
  show "store_ok a (append_step act u c a s)"
    using assms a unfolding s e store_ok_def by (auto simp: less_Suc_eq)
  have "map (deref ?h) st = map (deref h) st"
    using assms unfolding s by (rule map_deref_cong) (simp add: nth_append)
  moreover have "deref ?h ?x = record_step act u c (h ! a)"
    by (simp add: deref_def record_step_def)
  ultimately show "abs_state a (append_step act u c a s)
           = (fst (abs_state a s), snd (abs_state a s) @ [record_step act u c (fst (abs_state a s))])"
    using a unfolding s e by (simp add: abs_state_def nth_append)
  show "unchanged a s (append_step act u c a s)"
    unfolding s e by (simp add: unchanged_def nth_append)
qed

lemma store_update_props:
  assumes "store_ok a (h, st)"
  shows "store_ok a (h[a := d], st)"
    and "abs_state a (h[a := d], st) = (d, snd (abs_state a (h, st)))"
    and "unchanged a (h, st) (h[a := d], st)"
proof -
  from assms have a: "a < length h" by (simp add: store_ok_def)
  show "store_ok a (h[a := d], st)" using assms by (simp add: store_ok_def)
  have "map (deref (h[a := d])) st = map (deref h) st"
    using assms by (rule map_deref_cong) simp
  then show "abs_state a (h[a := d], st) = (d, snd (abs_state a (h, st)))"
    using a by (simp add: abs_state_def)
  show "unchanged a (h, st) (h[a := d], st)" by (simp add: unchanged_def)
qed

lemma abs_result_simps [simp]:
  "abs_result a (Inl e) = Inl e"
  "abs_result a (Inr (b, s)) = Inr (b, abs_state a s)"
  by (simp_all add: abs_result_def)

lemma abs_state_live: "abs_state a s = (cols, st) \<Longrightarrow> fst s ! a = cols"
  by (simp add: abs_state_def)

lemma ref_refines:
  "store_ok a hs \<Longrightarrow> abs_state a hs = s \<Longrightarrow>
     abs_result a (backtrack_ref adj k ns a i hs) = backtrack adj k ns i s \<and>
     (\<forall>b hs'. backtrack_ref adj k ns a i hs = Inr (b, hs') \<longrightarrow>
        store_ok a hs' \<and> unchanged a hs hs')"
  "store_ok a hs \<Longrightarrow> abs_state a hs = s \<Longrightarrow>
     abs_result a (color_loop_ref adj k ns a i u cs hs) = color_loop adj k ns i u cs s \<and>
     (\<forall>b hs'. color_loop_ref adj k ns a i u cs hs = Inr (b, hs') \<longrightarrow>
        store_ok a hs' \<and> unchanged a hs hs')"
proof (induction adj k ns i s and adj k ns i u cs s arbitrary: hs and hs rule: search_induct)
  case (backtrack adj k ns i cols st)
  note ok = backtrack.prems(1) and ab = backtrack.prems(2)
  consider "i = length ns" | "length ns < i" | "i < length ns" by linarith
  then show ?case
  proof cases
    case 1
    with append_step_props [OF ok, of "''done''" "''''" None] ab show ?thesis
      by (auto simp add: backtrack_ref.simps backtrack.simps)
  next
    case 2
    then show ?thesis by (simp add: backtrack_ref.simps backtrack.simps)
  next
    case 3
    with backtrack.IH [OF 3 ok ab] show ?thesis
      by (simp add: backtrack_ref.simps backtrack.simps)
  qed
next
  case (Nil adj k ns i u cols st)
  then show ?case by (auto simp add: color_loop_ref.simps color_loop.simps)
next
  case (Cons adj k ns i u c cs cols st)
  note ok = Cons.prems(1) and ab = Cons.prems(2)
  let ?s1 = "append_step ''try'' u (Some c) a hs"
  let ?tried = "record_step ''try'' u (Some c) cols"
  note p1 = append_step_props [OF ok, of "''try''" u "Some c"]
  from p1(2) ab have ab1: "abs_state a ?s1 = (cols, st @ [?tried])" by simp
  then have live1: "fst ?s1 ! a = cols" by (rule abs_state_live)
  show ?case
  proof (cases "compatible u c cols adj")
    case (Inl e)
    then show ?thesis by (simp add: color_loop_ref.simps color_loop_Cons Let_def live1)
  next
    case (Inr x)
    show ?thesis
    proof (cases x)
      case False
      with Inr have cf: "compatible u c cols adj = Inr False" by simp
      let ?s2 = "append_step ''conflict'' u (Some c) a ?s1"
      note p2 = append_step_props [OF p1(1), of "''conflict''" u "Some c"]
      from p2(2) ab1 have ab2: "abs_state a ?s2
          = (cols, st @ [?tried, record_step ''conflict'' u (Some c) cols])" by simp
      have u2: "unchanged a hs ?s2" using p1(3) p2(3) by (rule unchanged_trans)
      have h: "color_loop_ref adj k ns a i u (c # cs) hs = color_loop_ref adj k ns a i u cs ?s2"
        using cf by (simp add: color_loop_ref.simps Let_def live1)
      have p: "color_loop adj k ns i u (c # cs) (cols, st)
          = color_loop adj k ns i u cs
              (cols, st @ [?tried, record_step ''conflict'' u (Some c) cols])"
        using cf by (simp add: color_loop_Cons)
      from Cons.IH(3) [OF cf p2(1) ab2] u2 show ?thesis
        unfolding h p by (auto intro: unchanged_trans)
    next
      case True
      with Inr have ct: "compatible u c cols adj = Inr True" by simp
      let ?cols1 = "setitem cols u c"
      let ?asg = "record_step ''assign'' u (Some c) ?cols1"
      let ?h1 = "store_setitem (fst ?s1) a u c"
      let ?s2 = "append_step ''assign'' u (Some c) a (?h1, snd ?s1)"
      have h1: "?h1 = (fst ?s1)[a := ?cols1]" by (simp add: store_setitem_def live1)
      from p1(1) have ok1: "store_ok a (fst ?s1, snd ?s1)" by simp
      note pu = store_update_props [OF ok1, of ?cols1]
      from pu(2) ab1 have abu: "abs_state a (?h1, snd ?s1) = (?cols1, st @ [?tried])"
        unfolding h1 by simp
      from pu(1) have oku: "store_ok a (?h1, snd ?s1)" unfolding h1 .
      from pu(3) have unu: "unchanged a ?s1 (?h1, snd ?s1)" unfolding h1 by simp
      note p2 = append_step_props [OF oku, of "''assign''" u "Some c"]
      from p2(2) abu have ab2: "abs_state a ?s2 = (?cols1, st @ [?tried, ?asg])" by simp
      have u2: "unchanged a hs ?s2"
        using unchanged_trans [OF p1(3) unchanged_trans [OF unu p2(3)]] .
      note ih1 = Cons.IH(1) [OF ct p2(1) ab2]
      show ?thesis
      proof (cases "backtrack_ref adj k ns a (i + 1) ?s2")
        case (Inl e)
        with ih1 have "backtrack adj k ns (i + 1) (?cols1, st @ [?tried, ?asg]) = Inl e" by simp
        with Inl ct show ?thesis
          by (simp add: color_loop_ref.simps color_loop_Cons Let_def live1)
      next
        case (Inr r)
        obtain b s3 where r: "r = (b, s3)" by (cases r)
        from Inr r have rec: "backtrack_ref adj k ns a (i + 1) ?s2 = Inr (b, s3)" by simp
        from ih1 [THEN conjunct1] rec
        have prec: "backtrack adj k ns (i + 1) (?cols1, st @ [?tried, ?asg])
            = Inr (b, abs_state a s3)" by simp
        from ih1 [THEN conjunct2, rule_format, OF rec]
        have ok3: "store_ok a s3" and u3: "unchanged a ?s2 s3" by blast+
        have u3': "unchanged a hs s3" using u2 u3 by (rule unchanged_trans)
        show ?thesis
        proof (cases b)
          case True
          with rec prec ct ok3 u3' show ?thesis
            by (auto simp add: color_loop_ref.simps color_loop_Cons Let_def live1)
        next
          case False
          obtain cols2 st3 where ab3: "abs_state a s3 = (cols2, st3)" by (cases "abs_state a s3")
          then have live3: "fst s3 ! a = cols2" by (rule abs_state_live)
          let ?s4 = "append_step ''backtrack'' u (Some c) a s3"
          let ?bt = "record_step ''backtrack'' u (Some c) cols2"
          note p4 = append_step_props [OF ok3, of "''backtrack''" u "Some c"]
          from p4(2) ab3 have ab4: "abs_state a ?s4 = (cols2, st3 @ [?bt])" by simp
          then have live4: "fst ?s4 ! a = cols2" by (rule abs_state_live)
          have u4: "unchanged a hs ?s4" using u3' p4(3) by (rule unchanged_trans)
          from False rec have rec': "backtrack_ref adj k ns a (i + 1) ?s2 = Inr (False, s3)"
            by simp
          from False prec ab3
          have prec': "backtrack adj k ns (i + 1) (?cols1, st @ [?tried, ?asg])
              = Inr (False, cols2, st3)" by simp
          show ?thesis
          proof (cases "delitem cols2 u")
            case (Inl e)
            with rec' prec' ct show ?thesis
              by (simp add: color_loop_ref.simps color_loop_Cons Let_def live1 live4
                    store_delitem_def)
          next
            case (Inr cols3)
            let ?h6 = "(fst ?s4)[a := cols3]"
            from p4(1) have ok4: "store_ok a (fst ?s4, snd ?s4)" by simp
            note p6 = store_update_props [OF ok4, of cols3]
            from p6(2) ab4 have ab6: "abs_state a (?h6, snd ?s4) = (cols3, st3 @ [?bt])"
              by simp
            have u6: "unchanged a hs (?h6, snd ?s4)"
              using unchanged_trans [OF u4] p6(3) by simp
            have h: "color_loop_ref adj k ns a i u (c # cs) hs
                = color_loop_ref adj k ns a i u cs (?h6, snd ?s4)"
              using ct rec' Inr
              by (simp add: color_loop_ref.simps Let_def live1 live4 store_delitem_def)
            have p: "color_loop adj k ns i u (c # cs) (cols, st)
                = color_loop adj k ns i u cs (cols3, st3 @ [?bt])"
              using ct prec' Inr by (simp add: color_loop_Cons)
            from Cons.IH(2) [OF ct prec' Inr p6(1) ab6] u6 show ?thesis
              unfolding h p by (auto intro: unchanged_trans)
          qed
        qed
      qed
    qed
  qed
qed

lemma assign_shows_record [simp]:
  "assign_shows_color (record_step ''assign'' u (Some c) (setitem cols u c))"
  "a \<noteq> ''assign'' \<Longrightarrow> assign_shows_color (record_step a u c' cols)"
  by (simp_all add: assign_shows_color_def record_step_def setitem_def update_conv')

lemma search_assign_shows:
  "backtrack adj k ns i s = Inr (b, s')
   \<Longrightarrow> \<exists>T. snd s' = snd s @ T \<and> (\<forall>x \<in> set T. assign_shows_color x)"
  "color_loop adj k ns i u cs s = Inr (b, s')
   \<Longrightarrow> \<exists>T. snd s' = snd s @ T \<and> (\<forall>x \<in> set T. assign_shows_color x)"
proof (induction adj k ns i s and adj k ns i u cs s arbitrary: b s' and b s' rule: search_induct)
  case (backtrack adj k ns i cols st)
  from backtrack.prems show ?case
  proof (cases rule: backtrack_cases)
    case finish
    then show ?thesis by simp
  next
    case loop
    with backtrack.IH show ?thesis by simp
  qed
next
  case (Nil adj k ns i u cols st)
  then show ?case by (simp add: color_loop.simps)
next
  case (Cons adj k ns i u c cs cols st)
  from Cons.prems show ?case
  proof (cases rule: color_loop_Cons_cases)
    case conflict
    from Cons.IH(3) [OF conflict(1,2)]
    obtain T where "snd s' = (st @ [record_step ''try'' u (Some c) cols,
                         record_step ''conflict'' u (Some c) cols]) @ T"
      and "\<forall>x \<in> set T. assign_shows_color x" by auto
    then show ?thesis by auto
  next
    case success
    from Cons.IH(1) [OF success(1,3)]
    obtain T where "snd s' = (st @ [record_step ''try'' u (Some c) cols,
                       record_step ''assign'' u (Some c) (setitem cols u c)]) @ T"
      and "\<forall>x \<in> set T. assign_shows_color x" by auto
    then show ?thesis by auto
  next
    case (retry cols2 st3 cols3)
    from Cons.IH(1) [OF retry(1,2)]
    obtain T1 where t1: "st3 = (st @ [record_step ''try'' u (Some c) cols,
                       record_step ''assign'' u (Some c) (setitem cols u c)]) @ T1"
      and a1: "\<forall>x \<in> set T1. assign_shows_color x" by auto
    from Cons.IH(2) [OF retry(1,2,3,4)]
    obtain T2 where t2: "snd s' = (st3 @ [record_step ''backtrack'' u (Some c) cols2]) @ T2"
      and a2: "\<forall>x \<in> set T2. assign_shows_color x" by auto
    from t1 t2 a1 a2 show ?thesis by auto
  qed
qed

lemma deref_store_setitem:
  assumes "store_ok a (h, st)"
  shows "map (deref (store_setitem h a u c)) st = map (deref h) st"
  by (rule map_deref_cong [OF assms]) (simp add: store_setitem_def)

lemma deref_store_delitem:
  assumes "store_ok a (h, st)" and "store_delitem h a u = Inr h2"
  shows "map (deref h2) st = map (deref h) st"
proof -
  from assms(2) obtain d where "h2 = h[a := d]"
    by (auto simp: store_delitem_def split: sum.splits)
  then show ?thesis by (intro map_deref_cong [OF assms(1)]) simp
qed

lemma color_graph_backtracking_ref_refines:
  "color_graph_backtracking_ref adj k ord = color_graph_backtracking adj k ord"
proof (cases "order_nodes adj ord")
  case (Inl e)
  then show ?thesis
    by (simp add: color_graph_backtracking_ref_def color_graph_backtracking_def)
next
  case (Inr ns)
  have ok: "store_ok 0 ([[]], [])" by (simp add: store_ok_def)
  have ab: "abs_state 0 ([[]], []) = ([], [])" by (simp add: abs_state_def)
  from ref_refines(1) [OF ok ab, of adj k ns 0]
  have r: "abs_result 0 (backtrack_ref adj k ns 0 0 ([[]], [])) = backtrack adj k ns 0 ([], [])"
    by blast
  show ?thesis
  proof (cases "backtrack_ref adj k ns 0 0 ([[]], [])")
    case (Inl e)
    with r [symmetric] Inr show ?thesis
      by (simp add: color_graph_backtracking_ref_def color_graph_backtracking_def)
  next
    case (Inr x)
    obtain b h st where x: "x = (b, h, st)" by (cases x)
    with r [symmetric] Inr \<open>order_nodes adj ord = Inr ns\<close> show ?thesis
      by (simp add: color_graph_backtracking_ref_def color_graph_backtracking_def
            abs_state_def)
  qed
qed

text \<open>
  Claim C2. Every step's snapshot is a copy taken when the step is recorded.  In the store
  model each \<open>colors.copy()\<close> allocates a fresh dict object and the step holds its address;
  the live assignment is the object at \<open>colors_at\<close>, mutated in place by the search.  For a
  call of \<open>backtrack\<close> that returns, entered in a store where no recorded step holds the
  address of the live assignment: the steps recorded before the call are still there and
  every object they point to is unchanged by the assignments and removals of the call; no
  step of the final trace aliases the live assignment; the final trace, read in the final
  store, is the trace of the value model, where each step carries the value the live
  assignment had when the step was recorded; and each assign step recorded by the call
  still shows its vertex with its colour at the end, also after a later backtrack removed
  the vertex from the live assignment.  A single assignment or removal on the live
  assignment changes no recorded snapshot.
\<close>

theorem snapshot_isolation:
  assumes "store_ok colors_at (h, st)"
    and "backtrack_ref adj k ns colors_at i (h, st) = Inr (b, h', st')"
  shows "backtrack adj k ns i (h ! colors_at, map (deref h) st)
           = Inr (b, h' ! colors_at, map (deref h') st')
       \<and> take (length st) st' = st
       \<and> (\<forall>p < length h. p \<noteq> colors_at \<longrightarrow> h' ! p = h ! p)
       \<and> map (deref h') st = map (deref h) st
       \<and> store_ok colors_at (h', st')
       \<and> (\<forall>x \<in> set (drop (length st) st'). assign_shows_color (deref h' x))
       \<and> (\<forall>u c. map (deref (store_setitem h colors_at u c)) st = map (deref h) st)
       \<and> (\<forall>u h2. store_delitem h colors_at u = Inr h2
            \<longrightarrow> map (deref h2) st = map (deref h) st)"
proof -
  have ab: "abs_state colors_at (h, st) = (h ! colors_at, map (deref h) st)"
    by (simp add: abs_state_def)
  note r = ref_refines(1) [OF assms(1) ab, of adj k ns i]
  from r [THEN conjunct1] assms(2)
  have run: "backtrack adj k ns i (h ! colors_at, map (deref h) st)
      = Inr (b, h' ! colors_at, map (deref h') st')"
    by (simp add: abs_state_def)
  from r [THEN conjunct2, rule_format, OF assms(2)]
  have ok': "store_ok colors_at (h', st')" and un: "unchanged colors_at (h, st) (h', st')"
    by blast+
  from un have tk: "take (length st) st' = st"
    and same: "\<forall>p < length h. p \<noteq> colors_at \<longrightarrow> h' ! p = h ! p"
    by (simp_all add: unchanged_def)
  have old: "map (deref h') st = map (deref h) st"
    by (rule map_deref_cong [OF assms(1)]) (use same in simp)
  from search_assign_shows(1) [OF run]
  obtain T where t: "map (deref h') st' = map (deref h) st @ T"
    and sh: "\<forall>x \<in> set T. assign_shows_color x" by auto
  have "map (deref h') (drop (length st) st') = drop (length st) (map (deref h') st')"
    by (simp add: drop_map)
  also have "\<dots> = T" unfolding t by simp
  finally have "set T = deref h' ` set (drop (length st) st')" by (metis set_map)
  with sh have new: "\<forall>x \<in> set (drop (length st) st'). assign_shows_color (deref h' x)"
    by simp
  from run tk same old ok' new deref_store_setitem [OF assms(1)]
    deref_store_delitem [OF assms(1)]
  show ?thesis by blast
qed

theorem snapshot_isolation_witness:
  "store_ok 0 ([[]], [])
   \<and> backtrack_ref [(''A'', [''B'']), (''B'', [''A''])] 1 [''A'', ''B''] 0 0 ([[]], [])
       = Inr (False,
           [[], [], [(''A'', 0)], [(''A'', 0)], [(''A'', 0)], [(''A'', 0)]],
           [\<lparr>ref_action = ''try'', ref_node = ''A'', ref_color = Some 0, ref_partial = Some 1\<rparr>,
            \<lparr>ref_action = ''assign'', ref_node = ''A'', ref_color = Some 0, ref_partial = Some 2\<rparr>,
            \<lparr>ref_action = ''try'', ref_node = ''B'', ref_color = Some 0, ref_partial = Some 3\<rparr>,
            \<lparr>ref_action = ''conflict'', ref_node = ''B'', ref_color = Some 0, ref_partial = Some 4\<rparr>,
            \<lparr>ref_action = ''backtrack'', ref_node = ''A'', ref_color = Some 0, ref_partial = Some 5\<rparr>])
   \<and> backtrack [(''A'', [''B'']), (''B'', [''A''])] 1 [''A'', ''B''] 0 ([], [])
       = Inr (False, [],
           [record_step ''try'' ''A'' (Some 0) [],
            record_step ''assign'' ''A'' (Some 0) [(''A'', 0)],
            record_step ''try'' ''B'' (Some 0) [(''A'', 0)],
            record_step ''conflict'' ''B'' (Some 0) [(''A'', 0)],
            record_step ''backtrack'' ''A'' (Some 0) [(''A'', 0)]])"
proof -
  let ?adj = "[(''A'', [''B'']), (''B'', [''A''])]"
  let ?h = "[[], [], [(''A'', 0)], [(''A'', 0)], [(''A'', 0)], [(''A'', 0::int)]]"
  let ?st = "[\<lparr>ref_action = ''try'', ref_node = ''A'', ref_color = Some (0::int), ref_partial = Some (1::nat)\<rparr>,
            \<lparr>ref_action = ''assign'', ref_node = ''A'', ref_color = Some 0, ref_partial = Some 2\<rparr>,
            \<lparr>ref_action = ''try'', ref_node = ''B'', ref_color = Some 0, ref_partial = Some 3\<rparr>,
            \<lparr>ref_action = ''conflict'', ref_node = ''B'', ref_color = Some 0, ref_partial = Some 4\<rparr>,
            \<lparr>ref_action = ''backtrack'', ref_node = ''A'', ref_color = Some 0, ref_partial = Some 5\<rparr>]"
  have ok: "store_ok 0 ([[]] :: store, [])" by (simp add: store_ok_def)
  have run: "backtrack_ref ?adj 1 [''A'', ''B''] 0 0 ([[]], []) = Inr (False, ?h, ?st)"
    by (simp add: backtrack_ref.simps color_loop_ref.simps append_step_def dict_copy_def
          store_setitem_def store_delitem_def compatible_loop.simps search_defs)
  from snapshot_isolation [OF ok run, THEN conjunct1]
  have "backtrack ?adj 1 [''A'', ''B''] 0 ([], [])
      = Inr (False, [],
           [record_step ''try'' ''A'' (Some 0) [],
            record_step ''assign'' ''A'' (Some 0) [(''A'', 0)],
            record_step ''try'' ''B'' (Some 0) [(''A'', 0)],
            record_step ''conflict'' ''B'' (Some 0) [(''A'', 0)],
            record_step ''backtrack'' ''A'' (Some 0) [(''A'', 0)]])"
    by (simp add: deref_def record_step_def)
  with ok run show ?thesis by blast
qed

end
